theory Spec2Isabelle
  imports Main "HOL-Library.Sublist"
begin

section \<open>Strings\<close>

text \<open>
  A JavaScript string is a sequence of code units. The model uses \<open>string\<close>, reading each
  \<open>char\<close> as a code unit below 256; every literal of the page lies in that range.
\<close>

definition code_unit :: "char \<Rightarrow> nat" where
  "code_unit c = of_char c"

text \<open>
  Case mapping as the regular expressions of the page need it: without the \<open>u\<close> flag a code
  unit above 127 never canonicalizes to an ASCII letter, so only \<open>a\<close>-\<open>z\<close> and \<open>A\<close>-\<open>Z\<close>
  are mapped.
\<close>

definition toUpperCase :: "char \<Rightarrow> char" where
  "toUpperCase c =
     (if 97 \<le> code_unit c \<and> code_unit c \<le> 122 then char_of (code_unit c - 32) else c)"

definition toLowerCase :: "char \<Rightarrow> char" where
  "toLowerCase c =
     (if 65 \<le> code_unit c \<and> code_unit c \<le> 90 then char_of (code_unit c + 32) else c)"

text \<open>\<open>String.prototype.includes\<close>: the argument occurs somewhere in the receiver.\<close>

fun str_includes :: "string \<Rightarrow> string \<Rightarrow> bool" where
  "str_includes [] sub = (sub = [])"
| "str_includes (c # cs) sub = (prefix sub (c # cs) \<or> str_includes cs sub)"

text \<open>Truthiness of a value of type \<open>string | null\<close>: a non-empty string.\<close>

fun truthy :: "string option \<Rightarrow> bool" where
  "truthy None = False"
| "truthy (Some s) = (s \<noteq> [])"

text \<open>
  \<open>String.prototype.trim\<close> removes white space and line terminators from both ends; below
  256 these are the code units 9 to 13, 32 and 160.
\<close>

definition is_space :: "char \<Rightarrow> bool" where
  "is_space c = (code_unit c \<in> {9, 10, 11, 12, 13, 32, 160})"

definition trim :: "string \<Rightarrow> string" where
  "trim s = rev (dropWhile is_space (rev (dropWhile is_space s)))"

section \<open>Decimal amounts\<close>

text \<open>
  Amounts are non-negative integers of any size (\<open>nat\<close>), handed over as strings of
  decimal digits. \<open>toString\<close> is \<open>BigInt.prototype.toString\<close>; \<open>BigInt\<close> is the
  conversion of such a digit string, the only text the page applies it to. For any other
  text the model has \<open>None\<close>; this stands for the \<open>SyntaxError\<close> of JavaScript, which
  however still reads a sign, blanks around the digits, a radix prefix and the empty
  string: on those the model does not follow it, and nothing below depends on them.
\<close>

definition digit_char :: "nat \<Rightarrow> char" where
  "digit_char d = ''0123456789'' ! d"

definition is_digit :: "char \<Rightarrow> bool" where
  "is_digit c = (48 \<le> code_unit c \<and> code_unit c \<le> 57)"

definition digit_val :: "char \<Rightarrow> nat" where
  "digit_val c = code_unit c - 48"

fun toString :: "nat \<Rightarrow> string" where
  "toString n =
     (if n < 10 then [digit_char n] else toString (n div 10) @ [digit_char (n mod 10)])"

declare toString.simps [simp del]

definition BigInt :: "string \<Rightarrow> nat option" where
  "BigInt s = (if s \<noteq> [] \<and> list_all is_digit s
               then Some (foldl (\<lambda>acc c. 10 * acc + digit_val c) 0 s) else None)"

section \<open>Regular expressions\<close>

text \<open>
  The three patterns of the page use character classes, literals, sequence, alternation,
  \<open>*\<close>, \<open>+\<close> and \<open>{n}\<close>, all under the \<open>i\<close> flag and anchored at both ends. A class is a
  list of single characters and ranges.
\<close>

datatype cset = Single char | Range char char

fun in_cset :: "char \<Rightarrow> cset \<Rightarrow> bool" where
  "in_cset c (Single d) = (c = d)"
| "in_cset c (Range lo hi) = (code_unit lo \<le> code_unit c \<and> code_unit c \<le> code_unit hi)"

text \<open>
  With \<open>ignoreCase\<close> a character is in a class when the class holds a character with the
  same canonical form: the character itself or its other-case form.
\<close>

definition in_class :: "bool \<Rightarrow> cset list \<Rightarrow> char \<Rightarrow> bool" where
  "in_class ignoreCase cs c =
     (if ignoreCase
      then list_ex (\<lambda>a. in_cset c a \<or> in_cset (toUpperCase c) a \<or> in_cset (toLowerCase c) a) cs
      else list_ex (in_cset c) cs)"

datatype regex =
    Fail
  | Empty
  | Class "cset list"
  | Seq regex regex
  | Alt regex regex
  | Star regex
  | Plus regex
  | Times regex nat

text \<open>A literal such as \<open>near\<close> or \<open>\.\<close>: one single-character class after the other.\<close>

fun lit :: "string \<Rightarrow> regex" where
  "lit [] = Empty"
| "lit (c # cs) = Seq (Class [Single c]) (lit cs)"

fun nullable :: "regex \<Rightarrow> bool" where
  "nullable Fail = False"
| "nullable Empty = True"
| "nullable (Class cs) = False"
| "nullable (Seq r s) = (nullable r \<and> nullable s)"
| "nullable (Alt r s) = (nullable r \<or> nullable s)"
| "nullable (Star r) = True"
| "nullable (Plus r) = nullable r"
| "nullable (Times r n) = (n = 0 \<or> nullable r)"

text \<open>What is left of \<open>r{n}\<close> after one character, given what is left of \<open>r\<close>.\<close>

fun deriv_times :: "regex \<Rightarrow> regex \<Rightarrow> nat \<Rightarrow> regex" where
  "deriv_times r d 0 = Fail"
| "deriv_times r d (Suc n) =
     (if nullable r then Alt (Seq d (Times r n)) (deriv_times r d n) else Seq d (Times r n))"

fun deriv :: "bool \<Rightarrow> char \<Rightarrow> regex \<Rightarrow> regex" where
  "deriv i c Fail = Fail"
| "deriv i c Empty = Fail"
| "deriv i c (Class cs) = (if in_class i cs c then Empty else Fail)"
| "deriv i c (Seq r s) =
     (if nullable r then Alt (Seq (deriv i c r) s) (deriv i c s) else Seq (deriv i c r) s)"
| "deriv i c (Alt r s) = Alt (deriv i c r) (deriv i c s)"
| "deriv i c (Star r) = Seq (deriv i c r) (Star r)"
| "deriv i c (Plus r) = Seq (deriv i c r) (Star r)"
| "deriv i c (Times r n) = deriv_times r (deriv i c r) n"

text \<open>The whole string matches: the pattern stands between \<open>^\<close> and \<open>$\<close>.\<close>

fun matches :: "bool \<Rightarrow> regex \<Rightarrow> string \<Rightarrow> bool" where
  "matches i r [] = nullable r"
| "matches i r (c # cs) = matches i (deriv i c r) cs"

text \<open>\<open>RegExp.prototype.test\<close> for an anchored pattern with the \<open>i\<close> flag.\<close>

definition test :: "regex \<Rightarrow> string \<Rightarrow> bool" where
  "test r s = matches True r s"

text \<open>\<open>[0-9a-f]\<close> and \<open>[a-z0-9_-]\<close>.\<close>

definition hex_class :: regex where
  "hex_class = Class [Range (CHR ''0'') (CHR ''9''), Range (CHR ''a'') (CHR ''f'')]"

definition label_class :: regex where
  "label_class = Class [Range (CHR ''a'') (CHR ''z''), Range (CHR ''0'') (CHR ''9''),
                        Single (CHR ''_''), Single (CHR ''-'')]"

text \<open>\<^verbatim>\<open>/^[0-9a-f]{64}$/i\<close>\<close>

definition IMPLICIT_ADDRESS_REGEX :: regex where
  "IMPLICIT_ADDRESS_REGEX = Times hex_class 64"

text \<open>\<^verbatim>\<open>/^[a-z0-9_-]+(\.[a-z0-9_-]+)*\.(near|testnet)$/i\<close>\<close>

definition NAMED_ADDRESS_REGEX :: regex where
  "NAMED_ADDRESS_REGEX =
     Seq (Plus label_class)
       (Seq (Star (Seq (lit ''.'') (Plus label_class)))
          (Seq (lit ''.'') (Alt (lit ''near'') (lit ''testnet''))))"

text \<open>\<^verbatim>\<open>/^0x[0-9a-f]{40}$/i\<close>\<close>

definition ETHEREUM_LIKE_REGEX :: regex where
  "ETHEREUM_LIKE_REGEX = Seq (lit ''0x'') (Times hex_class 40)"

section \<open>Validation of the account ID\<close>

text \<open>\<open>validateAccountId\<close>: \<open>None\<close> is \<open>null\<close> (valid), \<open>Some\<close> carries the message.\<close>

definition validateAccountId :: "string \<Rightarrow> string option" where
  "validateAccountId raw =
     (let trimmed = trim raw in
      if trimmed = [] then Some ''Please enter a NEAR account ID.''
      else if test IMPLICIT_ADDRESS_REGEX trimmed then None
      else if test NAMED_ADDRESS_REGEX trimmed then None
      else if test ETHEREUM_LIKE_REGEX trimmed then None
      else Some ''Please enter a valid NEAR account ID (implicit address, named address like alice.near, or Ethereum-like address like 0x...).'')"

section \<open>Error classification\<close>

text \<open>
  The value caught by \<open>handleFetchBalance\<close>, read through \<open>ErrorWithType\<close>: its \<open>message\<close>
  and its optional \<open>type\<close>; \<open>None\<close> stands for \<open>undefined\<close>.
\<close>

record failure =
  message :: "string option"
  type :: "string option"

text \<open>\<open>error.message?.includes(sub)\<close>: \<open>undefined\<close> (falsy) when there is no message.\<close>

fun message_includes :: "failure \<Rightarrow> string \<Rightarrow> bool" where
  "message_includes error sub =
     (case message error of None \<Rightarrow> False | Some m \<Rightarrow> str_includes m sub)"

text \<open>
  The \<open>catch\<close> block of \<open>handleFetchBalance\<close>, from \<open>let errorMessage\<close> to the value
  handed to \<open>setError\<close>.
\<close>

definition classifyError :: "string \<Rightarrow> failure \<Rightarrow> string" where
  \<open>classifyError trimmedAccountId error =
     (if message error = Some ''Request timed out. Please try again.''
        then ''Request timed out. The network may be slow. Please try again.''
      else if type error = Some ''AccountDoesNotExist''
        then ''Account "'' @ trimmedAccountId @ ''" does not exist on NEAR mainnet.''
      else if message_includes error ''Exceeded 3 providers'' \<or> message_includes error ''Exceeded''
        then ''All RPC providers failed. The NEAR network may be experiencing issues. Please try again later.''
      else if message_includes error ''network'' \<or> message_includes error ''fetch''
        then ''Network error. Please check your connection and try again.''
      else if truthy (message error)
        then (case message error of Some m \<Rightarrow> ''Error: '' @ m
              | None \<Rightarrow> ''An error occurred while fetching the balance.'')
      else ''An error occurred while fetching the balance.'')\<close>

section \<open>Conversion of the balances\<close>

record BalanceData =
  available :: string
  staked :: string
  total :: string

text \<open>
  Lines 153 to 167 of the page: the sum is taken on \<open>BigInt\<close> values and rendered with
  \<open>toString\<close> before it is formatted. \<open>utils.format.formatNearAmount\<close> belongs to
  near-api-js and is a parameter here. \<open>None\<close>: \<open>BigInt\<close> rejected one of the strings.
\<close>

definition balanceRecord ::
  "(string \<Rightarrow> nat \<Rightarrow> string) \<Rightarrow> string \<Rightarrow> string \<Rightarrow> BalanceData option" where
  "balanceRecord formatNearAmount availableBalance stakedBalance =
     (case BigInt availableBalance of
        None \<Rightarrow> None
      | Some a \<Rightarrow>
          (case BigInt stakedBalance of
             None \<Rightarrow> None
           | Some s \<Rightarrow>
               (let totalYocto = a + s;
                    formattedBalance = formatNearAmount availableBalance 4;
                    formattedStaked = formatNearAmount stakedBalance 4;
                    formattedTotal = formatNearAmount (toString totalYocto) 4
                in Some \<lparr>available = formattedBalance, staked = formattedStaked,
                          total = formattedTotal\<rparr>)))"

section \<open>The page and its requests\<close>

text \<open>
  \<open>handleFetchBalance\<close> is asynchronous: it runs up to its first \<open>await\<close> when the form is
  submitted and continues when a promise settles. The model keeps one \<open>request\<close> per call
  and lets the environment choose the order of the events; each event runs to the next
  suspension point, as the single-threaded event loop does.

  \<open>timer\<close> is the state of the handle returned by \<open>setTimeout\<close>, with its delay.
\<close>

datatype timer = Pending nat | Cleared | Fired

text \<open>
  Where the inner async function (\<open>fetchPromise\<close>) stands: suspended at
  \<open>await connect(nearConfig)\<close>, at \<open>await near.account(trimmedAccountId)\<close>, at
  \<open>await Promise.all([...])\<close> with the results that have arrived so far (liquid, staked),
  or settled.
\<close>

datatype stage =
    AwaitConnect
  | AwaitAccount
  | AwaitBalances "nat option" "nat option"
  | Fulfilled BalanceData
  | Rejected failure

text \<open>
  One call of \<open>handleFetchBalance\<close> that passed validation: its \<open>trimmedAccountId\<close>, the
  \<open>aborted\<close> flag of the signal of its \<open>AbortController\<close>, its \<open>timeoutId\<close>, its
  \<open>fetchPromise\<close>, and whether \<open>Promise.race\<close> has settled and the rest of the handler has
  run.
\<close>

record request =
  trimmedAccountId :: string
  aborted :: bool
  timeoutId :: timer
  fetchPromise :: stage
  settled :: bool

text \<open>
  The state of \<open>HomePage\<close>: the five \<open>useState\<close> values, and \<open>abortControllerRef\<close> as the
  index of the request whose controller it holds.
\<close>

record page =
  accountId :: string
  balanceData :: "BalanceData option"
  fetchedAccountId :: "string option"
  loading :: bool
  error :: "string option"
  abortControllerRef :: "nat option"
  requests :: "request list"

text \<open>
  How an awaited promise of the library settles. The two balance queries deliver amounts
  in the smallest unit.
\<close>

datatype response =
    ConnectOk | ConnectErr failure
  | AccountOk | AccountErr failure
  | LiquidOk nat | LiquidErr failure
  | StakedOk nat | StakedErr failure

text \<open>
  What can happen to the page: typing (\<open>handleInputChange\<close>), submitting the form, unmounting
  (the cleanup of \<open>useEffect\<close>), a library promise of request \<open>i\<close> settling, and the
  timer of request \<open>i\<close> expiring.
\<close>

datatype event =
    InputChange string
  | Submit
  | Unmount
  | Response nat response
  | TimerFires nat

definition REQUEST_TIMEOUT :: nat where
  "REQUEST_TIMEOUT = 30000"

text \<open>\<open>new Error('Request cancelled')\<close> and the error of \<open>createTimeoutPromise\<close>.\<close>

definition cancelled :: failure where
  "cancelled = \<lparr>message = Some ''Request cancelled'', type = None\<rparr>"

definition timed_out :: failure where
  "timed_out = \<lparr>message = Some ''Request timed out. Please try again.'', type = None\<rparr>"

text \<open>
  The end of the inner function: the record of the two amounts, which the library hands
  over as digit strings. \<open>BigInt\<close> throws a \<open>SyntaxError\<close> on other text, which rejects
  the promise; \<open>toString\<close> never produces such text (\<open>convert_fulfilled\<close> below).
\<close>

definition convert :: "(string \<Rightarrow> nat \<Rightarrow> string) \<Rightarrow> nat \<Rightarrow> nat \<Rightarrow> stage" where
  "convert fmt a s =
     (case balanceRecord fmt (toString a) (toString s) of
        Some result \<Rightarrow> Fulfilled result
      | None \<Rightarrow> Rejected \<lparr>message = Some ''Cannot convert to a BigInt'', type = None\<rparr>)"

text \<open>
  \<open>Promise.all\<close> resolves once both results are there; the function then checks the signal
  and converts.
\<close>

definition join :: "(string \<Rightarrow> nat \<Rightarrow> string) \<Rightarrow> bool \<Rightarrow> nat option \<Rightarrow> nat option \<Rightarrow> stage" where
  "join fmt ab a s =
     (case a of
        None \<Rightarrow> AwaitBalances a s
      | Some x \<Rightarrow>
          (case s of
             None \<Rightarrow> AwaitBalances a s
           | Some y \<Rightarrow> if ab then Rejected cancelled else convert fmt x y))"

text \<open>
  One settlement seen by the inner function; \<open>ab\<close> is the \<open>aborted\<close> flag at that moment.
  A rejection is thrown at the \<open>await\<close>, and \<open>Promise.all\<close> rejects with the first rejection.
  A settlement that no \<open>await\<close> is waiting for changes nothing.
\<close>

definition fetch_step ::
  "(string \<Rightarrow> nat \<Rightarrow> string) \<Rightarrow> bool \<Rightarrow> response \<Rightarrow> stage \<Rightarrow> stage" where
  "fetch_step fmt ab r st =
     (case st of
        AwaitConnect \<Rightarrow>
          (case r of ConnectOk \<Rightarrow> AwaitAccount | ConnectErr e \<Rightarrow> Rejected e | _ \<Rightarrow> st)
      | AwaitAccount \<Rightarrow>
          (case r of
             AccountOk \<Rightarrow> if ab then Rejected cancelled else AwaitBalances None None
           | AccountErr e \<Rightarrow> Rejected e
           | _ \<Rightarrow> st)
      | AwaitBalances a s \<Rightarrow>
          (case r of
             LiquidOk x \<Rightarrow> if a = None then join fmt ab (Some x) s else st
           | LiquidErr e \<Rightarrow> if a = None then Rejected e else st
           | StakedOk y \<Rightarrow> if s = None then join fmt ab a (Some y) else st
           | StakedErr e \<Rightarrow> if s = None then Rejected e else st
           | _ \<Rightarrow> st)
      | Fulfilled result \<Rightarrow> st
      | Rejected e \<Rightarrow> st)"

fun fetch_run ::
  "(string \<Rightarrow> nat \<Rightarrow> string) \<Rightarrow> (bool \<times> response) list \<Rightarrow> stage \<Rightarrow> stage" where
  "fetch_run fmt [] st = st"
| "fetch_run fmt ((ab, r) # rs) st = fetch_run fmt rs (fetch_step fmt ab r st)"

definition clearTimeout :: "timer \<Rightarrow> timer" where
  "clearTimeout t = (case t of Pending d \<Rightarrow> Cleared | Cleared \<Rightarrow> Cleared | Fired \<Rightarrow> Fired)"

text \<open>
  \<open>if (abortControllerRef.current) abortControllerRef.current.abort()\<close>. The reference
  always holds a request of the list (\<open>page_inv\<close> below); an index outside of it aborts
  nothing.
\<close>

definition abort_current :: "page \<Rightarrow> page" where
  "abort_current p =
     (case abortControllerRef p of
        None \<Rightarrow> p
      | Some i \<Rightarrow>
          if i < length (requests p)
          then p\<lparr>requests := (requests p)[i := (requests p ! i)\<lparr>aborted := True\<rparr>]\<rparr>
          else p)"

text \<open>
  The handler after \<open>await Promise.race([fetchPromise, timeoutPromise])\<close>: the success path
  for \<open>Inr\<close>, the \<open>catch\<close> block for \<open>Inl\<close>, then \<open>finally\<close>. Each path clears the timer
  first (\<open>settle\<close>).
\<close>

definition settle :: "request \<Rightarrow> request" where
  "settle rq = rq\<lparr>timeoutId := clearTimeout (timeoutId rq), settled := True\<rparr>"

definition after_race :: "nat \<Rightarrow> failure + BalanceData \<Rightarrow> page \<Rightarrow> page" where
  "after_race i settlement p =
     (let rq = requests p ! i;
          p' = p\<lparr>requests := (requests p)[i := settle rq]\<rparr>
      in if aborted rq then p'
         else (case settlement of
                 Inr result \<Rightarrow>
                   p'\<lparr>balanceData := Some result,
                      fetchedAccountId := Some (trimmedAccountId rq),
                      loading := False\<rparr>
               | Inl e \<Rightarrow>
                   p'\<lparr>error := Some (classifyError (trimmedAccountId rq) e),
                      loading := False\<rparr>))"

text \<open>How \<open>fetchPromise\<close> has settled, if it has.\<close>

definition outcome :: "stage \<Rightarrow> (failure + BalanceData) option" where
  "outcome st =
     (case st of
        Fulfilled result \<Rightarrow> Some (Inr result)
      | Rejected e \<Rightarrow> Some (Inl e)
      | _ \<Rightarrow> None)"

text \<open>
  \<open>handleFetchBalance\<close> up to its first suspension. The signal of the new controller is not
  aborted, so the inner function passes its first check and waits for \<open>connect\<close>.
\<close>

definition handleFetchBalance :: "page \<Rightarrow> page" where
  "handleFetchBalance p =
     (let validationError = validateAccountId (accountId p) in
      if truthy validationError then p\<lparr>error := validationError\<rparr>
      else
        (let trimmed = trim (accountId p);
             p1 = abort_current p;
             i = length (requests p1)
         in p1\<lparr>abortControllerRef := Some i,
                loading := True, error := None, balanceData := None, fetchedAccountId := None,
                requests := requests p1 @
                  [\<lparr>trimmedAccountId = trimmed, aborted = False,
                    timeoutId = Pending REQUEST_TIMEOUT, fetchPromise = AwaitConnect,
                    settled = False\<rparr>]\<rparr>))"

definition handleInputChange :: "string \<Rightarrow> page \<Rightarrow> page" where
  "handleInputChange v p = p\<lparr>accountId := v, error := (if truthy (error p) then None else error p)\<rparr>"

fun step :: "(string \<Rightarrow> nat \<Rightarrow> string) \<Rightarrow> event \<Rightarrow> page \<Rightarrow> page" where
  "step fmt (InputChange v) p = handleInputChange v p"
| "step fmt Submit p = handleFetchBalance p"
| "step fmt Unmount p = abort_current p"
| "step fmt (Response i r) p =
     (if i < length (requests p) then
        (let rq = requests p ! i;
             st = fetch_step fmt (aborted rq) r (fetchPromise rq);
             p' = p\<lparr>requests := (requests p)[i := rq\<lparr>fetchPromise := st\<rparr>]\<rparr>
         in if settled rq then p'
            else (case outcome st of
                    Some settlement \<Rightarrow> after_race i settlement p'
                  | None \<Rightarrow> p'))
      else p)"
| "step fmt (TimerFires i) p =
     (if i < length (requests p) then
        (let rq = requests p ! i in
         case timeoutId rq of
           Pending d \<Rightarrow>
             (let p' = p\<lparr>requests := (requests p)[i := rq\<lparr>timeoutId := Fired\<rparr>]\<rparr>
              in if settled rq then p' else after_race i (Inl timed_out) p')
         | _ \<Rightarrow> p)
      else p)"

fun run :: "(string \<Rightarrow> nat \<Rightarrow> string) \<Rightarrow> event list \<Rightarrow> page \<Rightarrow> page" where
  "run fmt [] p = p"
| "run fmt (e # es) p = run fmt es (step fmt e p)"

definition init_page :: page where
  "init_page = \<lparr>accountId = [], balanceData = None, fetchedAccountId = None, loading = False,
                 error = None, abortControllerRef = None, requests = []\<rparr>"

text \<open>What the page shows of a fetch, and a request that is still running.\<close>

definition visible :: "page \<Rightarrow> BalanceData option \<times> string option \<times> bool \<times> string option" where
  "visible p = (balanceData p, fetchedAccountId p, loading p, error p)"

definition running :: "request \<Rightarrow> bool" where
  "running rq = (\<not> settled rq \<and> \<not> aborted rq)"

text \<open>A timer that is no longer scheduled: cleared, or expired.\<close>

definition released :: "timer \<Rightarrow> bool" where
  "released t = (case t of Pending d \<Rightarrow> False | Cleared \<Rightarrow> True | Fired \<Rightarrow> True)"

text \<open>
  What holds of every page that events have led to: the reference points at a request of
  the list, every request but that one is cancelled, and a settled request has no timer
  left.
\<close>

definition page_inv :: "page \<Rightarrow> bool" where
  "page_inv p =
     ((\<forall>i. abortControllerRef p = Some i \<longrightarrow> i < length (requests p))
      \<and> (\<forall>j < length (requests p).
            \<not> aborted (requests p ! j) \<longrightarrow> abortControllerRef p = Some j)
      \<and> (\<forall>j < length (requests p).
            settled (requests p ! j) \<longrightarrow> released (timeoutId (requests p ! j))))"

text \<open>
  The inner function of a request has returned or thrown: \<open>fetchPromise\<close> is no longer
  pending. On every page that events have led to, the handler of such a request has
  gone past \<open>Promise.race\<close>.
\<close>

definition ended :: "request \<Rightarrow> bool" where
  "ended rq = (outcome (fetchPromise rq) \<noteq> None)"

definition ended_inv :: "page \<Rightarrow> bool" where
  "ended_inv p =
     (\<forall>j < length (requests p). ended (requests p ! j) \<longrightarrow> settled (requests p ! j))"

section \<open>The accepted shapes, in the words of the specification\<close>

definition spec_hex :: "char \<Rightarrow> bool" where
  "spec_hex c = (let u = code_unit c in
     (48 \<le> u \<and> u \<le> 57) \<or> (97 \<le> u \<and> u \<le> 102) \<or> (65 \<le> u \<and> u \<le> 70))"

text \<open>A lowercase letter, a digit, a hyphen or an underscore, or the same in the other case.\<close>

definition spec_label_char :: "char \<Rightarrow> bool" where
  "spec_label_char c = (let u = code_unit c in
     (97 \<le> u \<and> u \<le> 122) \<or> (65 \<le> u \<and> u \<le> 90) \<or> (48 \<le> u \<and> u \<le> 57)
     \<or> c = CHR ''-'' \<or> c = CHR ''_'')"

text \<open>The pieces between the dots, as \<open>split('.')\<close> gives them.\<close>

fun split_dot :: "string \<Rightarrow> string list" where
  "split_dot [] = [[]]"
| "split_dot (c # cs) =
     (if c = CHR ''.'' then [] # split_dot cs
      else (case split_dot cs of [] \<Rightarrow> [[c]] | l # ls \<Rightarrow> (c # l) # ls))"

fun join_dot :: "string list \<Rightarrow> string" where
  "join_dot [] = []"
| "join_dot [l] = l"
| "join_dot (l # ls) = l @ CHR ''.'' # join_dot ls"

definition spec_label :: "string \<Rightarrow> bool" where
  "spec_label l = (l \<noteq> [] \<and> list_all spec_label_char l)"

definition spec_suffix :: "string \<Rightarrow> bool" where
  "spec_suffix l = (map toLowerCase l = ''near'' \<or> map toLowerCase l = ''testnet'')"

text \<open>Exactly 64 hexadecimal characters.\<close>

definition spec_implicit :: "string \<Rightarrow> bool" where
  "spec_implicit t = (length t = 64 \<and> list_all spec_hex t)"

text \<open>
  One or more dot-separated labels whose final label is a network suffix, as the sentence
  reads: a single label that is itself a suffix qualifies.
\<close>

definition spec_named_literal :: "string \<Rightarrow> bool" where
  "spec_named_literal t = (let ls = split_dot t in
     1 \<le> length ls \<and> list_all spec_label ls \<and> spec_suffix (last ls))"

text \<open>One or more labels followed by a network suffix: at least two pieces.\<close>

definition spec_named :: "string \<Rightarrow> bool" where
  "spec_named t = (let ls = split_dot t in
     2 \<le> length ls \<and> list_all spec_label ls \<and> spec_suffix (last ls))"

text \<open>\<open>0x\<close> followed by exactly 40 hexadecimal characters.\<close>

definition spec_ethereum :: "string \<Rightarrow> bool" where
  "spec_ethereum t = (map toLowerCase (take 2 t) = ''0x'' \<and> length (drop 2 t) = 40
                      \<and> list_all spec_hex (drop 2 t))"

definition is_lower :: "char \<Rightarrow> bool" where
  "is_lower c = (97 \<le> code_unit c \<and> code_unit c \<le> 122)"

section \<open>The language of a regular expression\<close>

definition conc :: "string set \<Rightarrow> string set \<Rightarrow> string set" where
  "conc A B = {u @ v | u v. u \<in> A \<and> v \<in> B}"

inductive_set star :: "string set \<Rightarrow> string set" for A :: "string set" where
  star_empty: "[] \<in> star A"
| star_step: "u \<in> A \<Longrightarrow> v \<in> star A \<Longrightarrow> u @ v \<in> star A"

fun pow :: "string set \<Rightarrow> nat \<Rightarrow> string set" where
  "pow A 0 = {[]}"
| "pow A (Suc n) = conc A (pow A n)"

fun lang :: "bool \<Rightarrow> regex \<Rightarrow> string set" where
  "lang i Fail = {}"
| "lang i Empty = {[]}"
| "lang i (Class cs) = {[c] | c. in_class i cs c}"
| "lang i (Seq r s) = conc (lang i r) (lang i s)"
| "lang i (Alt r s) = lang i r \<union> lang i s"
| "lang i (Star r) = star (lang i r)"
| "lang i (Plus r) = conc (lang i r) (star (lang i r))"
| "lang i (Times r n) = pow (lang i r) n"

section \<open>The formatter of the library\<close>

text \<open>
  \<open>utils.format.formatNearAmount\<close> is a function of near-api-js, which the page imports;
  its code is not among the sources of the page. The definitions of this section follow
  the module \<open>utils/format\<close> of the library: one NEAR is \<open>10 ^ NEAR_NOMINATION_EXP\<close>
  yoctoNEAR, and \<open>ROUNDING_OFFSETS\<close> is the table of the numbers \<open>5 * 10 ^ i\<close>.
\<close>

definition NEAR_NOMINATION_EXP :: nat where
  "NEAR_NOMINATION_EXP = 24"

definition ROUNDING_OFFSETS :: "nat \<Rightarrow> nat" where
  "ROUNDING_OFFSETS i = 5 * 10 ^ i"

text \<open>\<open>String.prototype.padStart\<close> with a one-character filler.\<close>

definition padStart :: "nat \<Rightarrow> char \<Rightarrow> string \<Rightarrow> string" where
  "padStart n c s = replicate (n - length s) c @ s"

text \<open>
  \<open>trimTrailingZeroes\<close> replaces the first match of "an optional dot, any number of zeros,
  end of the text" by nothing: the zeros at the end go, and a dot before them goes too.
\<close>

definition trimTrailingZeroes :: "string \<Rightarrow> string" where
  "trimTrailingZeroes v =
     (let r = dropWhile (\<lambda>c. c = CHR ''0'') (rev v)
      in rev (case r of [] \<Rightarrow> [] | c # cs \<Rightarrow> if c = CHR ''.'' then cs else c # cs))"

text \<open>
  \<open>formatWithCommas\<close> puts a comma before the last three digits as long as more than three
  digits stand together. It is applied to the digits of the whole part only, and is
  defined here for such a text of digits.
\<close>

fun formatWithCommas :: "string \<Rightarrow> string" where
  "formatWithCommas v =
     (if length v \<le> 3 then v
      else formatWithCommas (take (length v - 3) v) @ '','' @ drop (length v - 3) v)"

declare formatWithCommas.simps [simp del]

text \<open>
  \<open>formatNearAmount(balance, fracDigits)\<close>: the amount is read as an integer, half of the
  last kept digit is added when fewer than 24 fractional digits are asked for, and the
  decimal text is cut 24 digits from its end; the whole part is \<open>0\<close> when nothing is left of
  it, the fraction is filled with zeros on the left and cut to \<open>fracDigits\<close> digits, and
  the zeros at the end of the result are trimmed. The page reaches the formatter only
  with text that \<open>BigInt\<close> has accepted (line 153 comes first); for other text, which the
  library does not format, the model has the empty text.
\<close>

definition formatNearAmount :: "string \<Rightarrow> nat \<Rightarrow> string" where
  "formatNearAmount balance fracDigits =
     (case BigInt balance of
        None \<Rightarrow> []
      | Some n \<Rightarrow>
          (let roundingExp = NEAR_NOMINATION_EXP - fracDigits - 1;
               balanceBN = (if fracDigits \<noteq> NEAR_NOMINATION_EXP \<and> 0 < roundingExp
                            then n + ROUNDING_OFFSETS roundingExp else n);
               b = toString balanceBN;
               w = take (length b - NEAR_NOMINATION_EXP) b;
               wholeStr = (if w = [] then ''0'' else w);
               fractionStr = take fracDigits
                 (padStart NEAR_NOMINATION_EXP (CHR ''0'')
                    (drop (length b - NEAR_NOMINATION_EXP) b))
           in trimTrailingZeroes (formatWithCommas wholeStr @ ''.'' @ fractionStr)))"

section \<open>Facts about strings and amounts\<close>

lemma includes_iff: "str_includes s sub \<longleftrightarrow> (\<exists>p q. s = p @ sub @ q)"
proof (induction s)
  case Nil
  then show ?case by auto
next
  case (Cons c cs)
  show ?case
  proof
    assume "str_includes (c # cs) sub"
    then consider "prefix sub (c # cs)" | "str_includes cs sub" by auto
    then show "\<exists>p q. c # cs = p @ sub @ q"
    proof cases
      case 1
      then obtain q where "c # cs = sub @ q" by (auto simp: prefix_def)
      then have "c # cs = [] @ sub @ q" by simp
      then show ?thesis by blast
    next
      case 2
      with Cons.IH obtain p q where "cs = p @ sub @ q" by blast
      then have "c # cs = (c # p) @ sub @ q" by simp
      then show ?thesis by blast
    qed
  next
    assume "\<exists>p q. c # cs = p @ sub @ q"
    then obtain p q where pq: "c # cs = p @ sub @ q" by blast
    show "str_includes (c # cs) sub"
    proof (cases p)
      case Nil
      with pq have "prefix sub (c # cs)" by (simp add: prefix_def)
      then show ?thesis by simp
    next
      case (Cons a p')
      with pq have "cs = p' @ sub @ q" by simp
      with Cons.IH have "str_includes cs sub" by blast
      then show ?thesis by simp
    qed
  qed
qed

lemma code_unit_less: "code_unit c < 256"
  by (simp add: code_unit_def)

lemma code_unit_inj: "c = d \<longleftrightarrow> code_unit c = code_unit d"
  by (auto simp: code_unit_def)

lemma code_unit_char_of: "n < 256 \<Longrightarrow> code_unit (char_of n) = n"
  by (simp add: code_unit_def)

lemma below_ten:
  "(d::nat) < 10 \<Longrightarrow>
   d = 0 \<or> d = 1 \<or> d = 2 \<or> d = 3 \<or> d = 4 \<or> d = 5 \<or> d = 6 \<or> d = 7 \<or> d = 8 \<or> d = 9"
  by arith

lemma digit_val_digit_char: "d < 10 \<Longrightarrow> digit_val (digit_char d) = d"
  using below_ten [of d] by (auto simp: digit_val_def digit_char_def code_unit_def)

lemma is_digit_digit_char: "d < 10 \<Longrightarrow> is_digit (digit_char d)"
  using below_ten [of d] by (auto simp: is_digit_def digit_char_def code_unit_def)

lemma toString_digits: "toString n \<noteq> [] \<and> list_all is_digit (toString n)"
proof (induction n rule: toString.induct)
  case (1 n)
  show ?case
  proof (cases "n < 10")
    case True
    then show ?thesis by (simp add: toString.simps [of n] is_digit_digit_char)
  next
    case False
    with 1 have "list_all is_digit (toString (n div 10))" by simp
    moreover have "is_digit (digit_char (n mod 10))" by (simp add: is_digit_digit_char)
    ultimately show ?thesis using False by (simp add: toString.simps [of n])
  qed
qed

lemma foldl_toString: "foldl (\<lambda>acc c. 10 * acc + digit_val c) 0 (toString n) = n"
proof (induction n rule: toString.induct)
  case (1 n)
  show ?case
  proof (cases "n < 10")
    case True
    then show ?thesis by (simp add: toString.simps [of n] digit_val_digit_char)
  next
    case False
    with 1 have "foldl (\<lambda>acc c. 10 * acc + digit_val c) 0 (toString (n div 10)) = n div 10"
      by simp
    then show ?thesis using False by (simp add: toString.simps [of n] digit_val_digit_char)
  qed
qed

lemma BigInt_toString: "BigInt (toString n) = Some n"
  by (simp add: BigInt_def toString_digits foldl_toString)

lemma balanceRecord_toString:
  "balanceRecord fmt (toString a) (toString s) =
     Some \<lparr>available = fmt (toString a) 4, staked = fmt (toString s) 4,
           total = fmt (toString (a + s)) 4\<rparr>"
  by (simp add: balanceRecord_def BigInt_toString)

lemma BigInt_literals:
  "BigInt ''1000000000000000000000000'' = Some 1000000000000000000000000"
  "BigInt ''500000000000000000000000'' = Some 500000000000000000000000"
  by (simp_all add: BigInt_def is_digit_def digit_val_def code_unit_def)

lemma BigInt_literal_total:
  "BigInt ''1500000000000000000000000'' = Some 1500000000000000000000000"
  "BigInt ''1234560000000000000000000'' = Some 1234560000000000000000000"
  "BigInt ''1234567000000000000000000000'' = Some 1234567000000000000000000000"
  by (simp_all add: BigInt_def is_digit_def digit_val_def code_unit_def)

lemma toString_literals:
  "toString 1000000000000000000000000 = ''1000000000000000000000000''"
  "toString 500000000000000000000000 = ''500000000000000000000000''"
  by (simp_all add: toString.simps digit_char_def)

lemma alice_near_sum:
  "toString (1000000000000000000000000 + 500000000000000000000000)
   = ''1500000000000000000000000''"
  by (simp add: toString.simps digit_char_def)

lemma toString_rounded:
  "toString 1000050000000000000000000 = ''1000050000000000000000000''"
  "toString 500050000000000000000000 = ''500050000000000000000000''"
  "toString 1500050000000000000000000 = ''1500050000000000000000000''"
  "toString 1234610000000000000000000 = ''1234610000000000000000000''"
  "toString 1234567050000000000000000000 = ''1234567050000000000000000000''"
  by (simp_all add: toString.simps digit_char_def)

lemma format_one: "formatNearAmount ''1000000000000000000000000'' 4 = ''1''"
  by (simp add: formatNearAmount_def BigInt_literals NEAR_NOMINATION_EXP_def
      ROUNDING_OFFSETS_def toString_rounded padStart_def trimTrailingZeroes_def
      formatWithCommas.simps)

lemma format_half: "formatNearAmount ''500000000000000000000000'' 4 = ''0.5''"
  by (simp add: formatNearAmount_def BigInt_literals NEAR_NOMINATION_EXP_def
      ROUNDING_OFFSETS_def toString_rounded padStart_def trimTrailingZeroes_def
      formatWithCommas.simps)

lemma format_total: "formatNearAmount ''1500000000000000000000000'' 4 = ''1.5''"
  by (simp add: formatNearAmount_def BigInt_literal_total NEAR_NOMINATION_EXP_def
      ROUNDING_OFFSETS_def toString_rounded padStart_def trimTrailingZeroes_def
      formatWithCommas.simps)

lemma format_rounds: "formatNearAmount ''1234560000000000000000000'' 4 = ''1.2346''"
  by (simp add: formatNearAmount_def BigInt_literal_total NEAR_NOMINATION_EXP_def
      ROUNDING_OFFSETS_def toString_rounded padStart_def trimTrailingZeroes_def
      formatWithCommas.simps)

lemma format_groups: "formatNearAmount ''1234567000000000000000000000'' 4 = ''1,234.567''"
  by (simp add: formatNearAmount_def BigInt_literal_total NEAR_NOMINATION_EXP_def
      ROUNDING_OFFSETS_def toString_rounded padStart_def trimTrailingZeroes_def
      formatWithCommas.simps)

lemma alice_near_fetch:
  "fetch_run fmt
     [(False, ConnectOk), (False, AccountOk), (False, LiquidOk 1000000000000000000000000),
      (False, StakedOk 500000000000000000000000)] AwaitConnect
   = (case balanceRecord fmt ''1000000000000000000000000'' ''500000000000000000000000'' of
        Some result \<Rightarrow> Fulfilled result
      | None \<Rightarrow> Rejected \<lparr>message = Some ''Cannot convert to a BigInt'', type = None\<rparr>)"
  by (simp add: fetch_step_def join_def convert_def toString_literals)

section \<open>The total of the record\<close>

text \<open>
  Claim C1. For all non-negative integers \<open>a\<close> (available) and \<open>s\<close> (staked) of any size,
  handed over as digit strings, the record is produced and its total is the formatter
  applied to the digit string of the exact sum \<open>a + s\<close>: the sum is taken on integers
  before formatting, and the string handed to the formatter denotes \<open>a + s\<close> itself, also
  beyond \<open>2 ^ 63\<close>.
\<close>

theorem total_is_exact_sum:
  "balanceRecord fmt (toString a) (toString s) =
     Some \<lparr>available = fmt (toString a) 4, staked = fmt (toString s) 4,
           total = fmt (toString (a + s)) 4\<rparr>
   \<and> BigInt (toString (a + s)) = Some (a + s)"
proof -
  have a: "BigInt (toString a) = Some a" by (rule BigInt_toString)
  have s: "BigInt (toString s) = Some s" by (rule BigInt_toString)
  have t: "BigInt (toString (a + s)) = Some (a + s)" by (rule BigInt_toString)
  show ?thesis
    unfolding balanceRecord_def a s using t by (simp add: Let_def)
qed

theorem total_is_exact_sum_witness:
  "balanceRecord (\<lambda>balance fracDigits. balance) ''9223372036854775808'' ''9223372036854775809''
   = Some \<lparr>available = ''9223372036854775808'', staked = ''9223372036854775809'',
           total = ''18446744073709551617''\<rparr>"
proof -
  have a: "toString 9223372036854775808 = ''9223372036854775808''"
    by (simp add: toString.simps digit_char_def)
  have s: "toString 9223372036854775809 = ''9223372036854775809''"
    by (simp add: toString.simps digit_char_def)
  have t: "toString (9223372036854775808 + 9223372036854775809) = ''18446744073709551617''"
    by (simp add: toString.simps digit_char_def)
  show ?thesis
    using total_is_exact_sum
      [of "\<lambda>balance fracDigits. balance" 9223372036854775808 9223372036854775809]
    unfolding a s t by simp
qed

text \<open>
  Claim C2, as it is written: with available = 1000000000000000000000000 and staked =
  500000000000000000000000 the record is \<open>{available: "1.0000", staked: "0.5000",
  total: "1.5000"}\<close>, every value with four fractional digits. The formatter of the
  library trims the zeros at the end, so this is not the record of the page.
\<close>

theorem alice_near_fixed_digits:
  "balanceRecord formatNearAmount ''1000000000000000000000000'' ''500000000000000000000000''
   \<noteq> Some \<lparr>available = ''1.0000'', staked = ''0.5000'', total = ''1.5000''\<rparr>"
  by (simp only: balanceRecord_def BigInt_literals option.case Let_def alice_near_sum
      format_one format_half format_total) simp

text \<open>
  Claim C2, amended. With available = 1000000000000000000000000 and staked =
  500000000000000000000000 the record is \<open>{available: "1", staked: "0.5", total: "1.5"}\<close>,
  and it is what the fetch of the page resolves with when the two queries deliver these
  amounts. The values are rounded to at most four fractional digits, the zeros at the end
  and a dot left at the end are removed, and the whole part is grouped by thousands:
  1.23456 NEAR is shown as \<open>1.2346\<close> and 1234.567 NEAR as \<open>1,234.567\<close>.
\<close>

theorem alice_near_record:
  "balanceRecord formatNearAmount ''1000000000000000000000000'' ''500000000000000000000000''
     = Some \<lparr>available = ''1'', staked = ''0.5'', total = ''1.5''\<rparr>
   \<and> fetch_run formatNearAmount
        [(False, ConnectOk), (False, AccountOk), (False, LiquidOk 1000000000000000000000000),
         (False, StakedOk 500000000000000000000000)] AwaitConnect
     = Fulfilled \<lparr>available = ''1'', staked = ''0.5'', total = ''1.5''\<rparr>
   \<and> formatNearAmount ''1234560000000000000000000'' 4 = ''1.2346''
   \<and> formatNearAmount ''1234567000000000000000000000'' 4 = ''1,234.567''"
proof -
  have r: "balanceRecord formatNearAmount
             ''1000000000000000000000000'' ''500000000000000000000000''
           = Some \<lparr>available = ''1'', staked = ''0.5'', total = ''1.5''\<rparr>"
    by (simp only: balanceRecord_def BigInt_literals option.case Let_def alice_near_sum
        format_one format_half format_total)
  have f: "fetch_run formatNearAmount
        [(False, ConnectOk), (False, AccountOk), (False, LiquidOk 1000000000000000000000000),
         (False, StakedOk 500000000000000000000000)] AwaitConnect
     = Fulfilled \<lparr>available = ''1'', staked = ''0.5'', total = ''1.5''\<rparr>"
    by (simp only: alice_near_fetch r option.case)
  show ?thesis
    by (simp only: r f format_rounds format_groups simp_thms)
qed

section \<open>The messages of the classifier\<close>

lemma timeout_text_without_Exceeded:
  "\<not> str_includes ''Request timed out. Please try again.'' ''Exceeded''"
  by simp

lemma includes_longer:
  "str_includes m ''Exceeded 3 providers'' \<Longrightarrow> str_includes m ''Exceeded''"
proof -
  assume "str_includes m ''Exceeded 3 providers''"
  then obtain p q where "m = p @ ''Exceeded 3 providers'' @ q"
    unfolding includes_iff by blast
  then have "m = p @ ''Exceeded'' @ ('' 3 providers'' @ q)" by simp
  then show ?thesis unfolding includes_iff by blast
qed

lemma classify_account:
  assumes "type e = Some ''AccountDoesNotExist''"
    and "message e \<noteq> Some ''Request timed out. Please try again.''"
  shows \<open>classifyError acct e = ''Account "'' @ acct @ ''" does not exist on NEAR mainnet.''\<close>
  using assms by (simp add: classifyError_def)

lemma classify_exceeded:
  assumes "message_includes e ''Exceeded''" and "type e \<noteq> Some ''AccountDoesNotExist''"
    and "message e \<noteq> Some ''Request timed out. Please try again.''"
  shows "classifyError acct e =
    ''All RPC providers failed. The NEAR network may be experiencing issues. Please try again later.''"
  using assms by (simp add: classifyError_def)

lemma classify_providers:
  assumes "message_includes e ''Exceeded 3 providers''"
    and "type e \<noteq> Some ''AccountDoesNotExist''"
  shows "classifyError acct e =
    ''All RPC providers failed. The NEAR network may be experiencing issues. Please try again later.''"
proof -
  from assms(1) obtain m where m: "message e = Some m" "str_includes m ''Exceeded 3 providers''"
    by (cases "message e") auto
  then have inc: "str_includes m ''Exceeded''" by (intro includes_longer)
  with timeout_text_without_Exceeded have "m \<noteq> ''Request timed out. Please try again.''"
    by auto
  with m inc assms(2) show ?thesis
    by (intro classify_exceeded) simp_all
qed

lemma classify_fallback:
  assumes "message e = None \<or> message e = Some []"
    and "type e \<noteq> Some ''AccountDoesNotExist''"
  shows "classifyError acct e = ''An error occurred while fetching the balance.''"
  using assms by (auto simp: classifyError_def)

lemma classify_range:
  \<open>classifyError acct e = ''Request timed out. The network may be slow. Please try again.''
   \<or> classifyError acct e = ''Account "'' @ acct @ ''" does not exist on NEAR mainnet.''
   \<or> classifyError acct e =
       ''All RPC providers failed. The NEAR network may be experiencing issues. Please try again later.''
   \<or> classifyError acct e = ''Network error. Please check your connection and try again.''
   \<or> (\<exists>m. message e = Some m \<and> classifyError acct e = ''Error: '' @ m)
   \<or> classifyError acct e = ''An error occurred while fetching the balance.''\<close>
  unfolding classifyError_def by (cases "message e") simp_all

text \<open>
  Claim C6, as it is written: exhaustion of every provider endpoint produces "All RPC
  providers failed. The network may be experiencing issues. Please try again later." The
  message of the page names the NEAR network, so the text differs.
\<close>

theorem providers_message_text:
  "classifyError ''alice.near'' \<lparr>message = Some ''Exceeded 3 providers'', type = None\<rparr>
   \<noteq> ''All RPC providers failed. The network may be experiencing issues. Please try again later.''"
  by (simp add: classifyError_def)

text \<open>
  Claim C6, amended. A failure of type \<open>AccountDoesNotExist\<close> (other than the timeout error)
  produces \<open>Account "<identifier>" does not exist on NEAR mainnet.\<close> with the submitted
  identifier; a failure whose message reports \<open>Exceeded 3 providers\<close> produces "All RPC
  providers failed. The NEAR network may be experiencing issues. Please try again later.";
  every failure yields one of the six fixed messages, and a failure without a message and
  without that type yields the generic one.
\<close>

theorem classifyError_messages:
  \<open>(type e = Some ''AccountDoesNotExist''
      \<and> message e \<noteq> Some ''Request timed out. Please try again.''
      \<longrightarrow> classifyError acct e = ''Account "'' @ acct @ ''" does not exist on NEAR mainnet.'')
   \<and> (message_includes e ''Exceeded 3 providers'' \<and> type e \<noteq> Some ''AccountDoesNotExist''
      \<longrightarrow> classifyError acct e =
        ''All RPC providers failed. The NEAR network may be experiencing issues. Please try again later.'')
   \<and> (classifyError acct e = ''Request timed out. The network may be slow. Please try again.''
      \<or> classifyError acct e = ''Account "'' @ acct @ ''" does not exist on NEAR mainnet.''
      \<or> classifyError acct e =
          ''All RPC providers failed. The NEAR network may be experiencing issues. Please try again later.''
      \<or> classifyError acct e = ''Network error. Please check your connection and try again.''
      \<or> (\<exists>m. message e = Some m \<and> classifyError acct e = ''Error: '' @ m)
      \<or> classifyError acct e = ''An error occurred while fetching the balance.'')
   \<and> ((message e = None \<or> message e = Some []) \<and> type e \<noteq> Some ''AccountDoesNotExist''
      \<longrightarrow> classifyError acct e = ''An error occurred while fetching the balance.'')\<close>
  using classify_account [of e acct] classify_providers [of e acct] classify_range [of acct e]
    classify_fallback [of e acct]
  by blast

theorem classifyError_messages_witness:
  \<open>classifyError ''alice.near''
      \<lparr>message = Some ''account alice.near does not exist while viewing'',
       type = Some ''AccountDoesNotExist''\<rparr>
     = ''Account "alice.near" does not exist on NEAR mainnet.''
   \<and> classifyError ''alice.near''
      \<lparr>message = Some ''Exceeded 3 providers. Last error: 503'', type = None\<rparr>
     = ''All RPC providers failed. The NEAR network may be experiencing issues. Please try again later.''
   \<and> classifyError ''alice.near'' \<lparr>message = None, type = None\<rparr>
     = ''An error occurred while fetching the balance.''\<close>
  using
    classifyError_messages [of "\<lparr>message = Some ''account alice.near does not exist while viewing'',
       type = Some ''AccountDoesNotExist''\<rparr>" "''alice.near''"]
    classifyError_messages [of "\<lparr>message = Some ''Exceeded 3 providers. Last error: 503'',
       type = None\<rparr>" "''alice.near''"]
    classifyError_messages [of "\<lparr>message = None, type = None\<rparr>" "''alice.near''"]
  by simp

text \<open>
  Claim C10. A failure that is not of type \<open>AccountDoesNotExist\<close> and whose message is not
  the timeout text, but contains \<open>Exceeded\<close> anywhere, gets the message for exhausted
  providers, whatever the failure was.
\<close>

theorem exceeded_anywhere:
  assumes "type e \<noteq> Some ''AccountDoesNotExist''"
    and "message e = Some m"
    and "m \<noteq> ''Request timed out. Please try again.''"
    and "m = p @ ''Exceeded'' @ q"
  shows "classifyError acct e =
    ''All RPC providers failed. The NEAR network may be experiencing issues. Please try again later.''"
proof -
  from assms(4) have "str_includes m ''Exceeded''" unfolding includes_iff by blast
  with assms(1,2,3) show ?thesis by (intro classify_exceeded) simp_all
qed

theorem exceeded_anywhere_witness:
  "classifyError ''alice.near'' \<lparr>message = Some ''Storage quota Exceeded for key'', type = None\<rparr>
   = ''All RPC providers failed. The NEAR network may be experiencing issues. Please try again later.''"
proof -
  let ?e = "\<lparr>message = Some ''Storage quota Exceeded for key'', type = None\<rparr>"
  have h1: "type ?e \<noteq> Some ''AccountDoesNotExist''" by simp
  have h2: "message ?e = Some ''Storage quota Exceeded for key''" by simp
  have h3: "''Storage quota Exceeded for key'' \<noteq> ''Request timed out. Please try again.''"
    by simp
  have h4: "''Storage quota Exceeded for key'' = ''Storage quota '' @ ''Exceeded'' @ '' for key''"
    by simp
  show ?thesis by (rule exceeded_anywhere [OF h1 h2 h3 h4])
qed

section \<open>Derivatives compute the language\<close>

lemma concI: "u \<in> A \<Longrightarrow> v \<in> B \<Longrightarrow> u @ v \<in> conc A B"
  unfolding conc_def by blast

lemma concE:
  "w \<in> conc A B \<Longrightarrow> (\<And>u v. w = u @ v \<Longrightarrow> u \<in> A \<Longrightarrow> v \<in> B \<Longrightarrow> R) \<Longrightarrow> R"
  unfolding conc_def by blast

lemma pow_Nil: "[] \<in> pow A n \<longleftrightarrow> n = 0 \<or> [] \<in> A"
  by (induction n) (auto simp: conc_def)

lemma nullable_lang: "nullable r \<longleftrightarrow> [] \<in> lang i r"
proof (induction i r rule: lang.induct)
  case (6 i r)
  show ?case by (simp add: star_empty)
next
  case (7 i r)
  then show ?case by (auto simp: conc_def intro: star_empty)
qed (auto simp: conc_def pow_Nil)

lemma conc_left_quot:
  "{w. c # w \<in> conc A B} = conc {w. c # w \<in> A} B \<union> (if [] \<in> A then {w. c # w \<in> B} else {})"
proof -
  have "c # w \<in> conc A B \<longleftrightarrow>
        (\<exists>u v. w = u @ v \<and> c # u \<in> A \<and> v \<in> B) \<or> ([] \<in> A \<and> c # w \<in> B)" for w
  proof
    assume "c # w \<in> conc A B"
    then obtain u v where uv: "c # w = u @ v" "u \<in> A" "v \<in> B" by (rule concE)
    show "(\<exists>u v. w = u @ v \<and> c # u \<in> A \<and> v \<in> B) \<or> ([] \<in> A \<and> c # w \<in> B)"
    proof (cases u)
      case Nil
      with uv show ?thesis by simp
    next
      case (Cons a u')
      with uv have "w = u' @ v" "c # u' \<in> A" by auto
      with uv(3) show ?thesis by blast
    qed
  next
    assume "(\<exists>u v. w = u @ v \<and> c # u \<in> A \<and> v \<in> B) \<or> ([] \<in> A \<and> c # w \<in> B)"
    then show "c # w \<in> conc A B"
    proof
      assume "\<exists>u v. w = u @ v \<and> c # u \<in> A \<and> v \<in> B"
      then obtain u v where "w = u @ v" "c # u \<in> A" "v \<in> B" by blast
      then show ?thesis using concI [of "c # u" A v B] by simp
    next
      assume "[] \<in> A \<and> c # w \<in> B"
      then show ?thesis using concI [of "[]" A "c # w" B] by simp
    qed
  qed
  then show ?thesis by (auto simp: conc_def)
qed

lemma star_left_quot: "{w. c # w \<in> star A} = conc {w. c # w \<in> A} (star A)"
proof (intro set_eqI iffI)
  fix w
  assume "w \<in> {w. c # w \<in> star A}"
  then have "c # w \<in> star A" by simp
  then have "\<exists>u v. w = u @ v \<and> c # u \<in> A \<and> v \<in> star A"
  proof (induction "c # w" arbitrary: w rule: star.induct)
    case (star_step u v)
    show ?case
    proof (cases u)
      case Nil
      with star_step.hyps(4) have "v = c # w" by simp
      then show ?thesis by (rule star_step.hyps(3))
    next
      case (Cons a u')
      with star_step.hyps(4) have "w = u' @ v" "u = c # u'" by simp_all
      with star_step.hyps(1,2) show ?thesis by blast
    qed
  qed
  then show "w \<in> conc {w. c # w \<in> A} (star A)" by (auto simp: conc_def)
next
  fix w
  assume "w \<in> conc {w. c # w \<in> A} (star A)"
  then obtain u v where "w = u @ v" "u \<in> {w. c # w \<in> A}" "v \<in> star A" by (rule concE)
  then show "w \<in> {w. c # w \<in> star A}"
    using star_step [of "c # u" A v] by simp
qed

lemma lang_deriv_times:
  assumes "lang i d = {w. c # w \<in> lang i r}"
  shows "lang i (deriv_times r d n) = {w. c # w \<in> pow (lang i r) n}"
proof (induction n)
  case 0
  show ?case by simp
next
  case (Suc n)
  then show ?case
    using assms by (auto simp: conc_left_quot nullable_lang [of r i])
qed

lemma lang_deriv: "lang i (deriv i c r) = {w. c # w \<in> lang i r}"
proof (induction i c r rule: deriv.induct)
  case (4 i c r s)
  then show ?case by (simp add: conc_left_quot nullable_lang [of r i])
next
  case (6 i c r)
  then show ?case by (simp add: star_left_quot)
next
  case (7 i c r)
  then show ?case
    by (auto simp: conc_left_quot star_left_quot nullable_lang [of r i])
next
  case (8 i c r n)
  then show ?case by (simp add: lang_deriv_times)
qed (auto simp: conc_def)

lemma matches_lang: "matches i r w \<longleftrightarrow> w \<in> lang i r"
  by (induction w arbitrary: r) (simp_all add: nullable_lang [of _ i] lang_deriv)

section \<open>The classes of the three patterns\<close>

lemma code_unit_toUpperCase:
  "code_unit (toUpperCase c) =
     (if 97 \<le> code_unit c \<and> code_unit c \<le> 122 then code_unit c - 32 else code_unit c)"
  using code_unit_less [of c] by (simp add: toUpperCase_def code_unit_char_of)

lemma code_unit_toLowerCase:
  "code_unit (toLowerCase c) =
     (if 65 \<le> code_unit c \<and> code_unit c \<le> 90 then code_unit c + 32 else code_unit c)"
  using code_unit_less [of c] by (simp add: toLowerCase_def code_unit_char_of)

lemma code_unit_literals:
  "code_unit (CHR ''0'') = 48" "code_unit (CHR ''9'') = 57"
  "code_unit (CHR ''a'') = 97" "code_unit (CHR ''f'') = 102" "code_unit (CHR ''z'') = 122"
  "code_unit (CHR ''_'') = 95" "code_unit (CHR ''-'') = 45" "code_unit (CHR ''.'') = 46"
  by (simp_all add: code_unit_def)

lemma in_cset_code_unit:
  "in_cset c (Single d) \<longleftrightarrow> code_unit c = code_unit d"
  "in_cset c (Range lo hi) \<longleftrightarrow> code_unit lo \<le> code_unit c \<and> code_unit c \<le> code_unit hi"
  using code_unit_inj by simp_all

lemma in_hex_class:
  "in_class True [Range (CHR ''0'') (CHR ''9''), Range (CHR ''a'') (CHR ''f'')] c = spec_hex c"
proof -
  define u where "u = code_unit c"
  define v where "v = code_unit (toUpperCase c)"
  define w where "w = code_unit (toLowerCase c)"
  have v: "v = (if 97 \<le> u \<and> u \<le> 122 then u - 32 else u)"
    unfolding u_def v_def by (rule code_unit_toUpperCase)
  have w: "w = (if 65 \<le> u \<and> u \<le> 90 then u + 32 else u)"
    unfolding u_def w_def by (rule code_unit_toLowerCase)
  have "in_class True [Range (CHR ''0'') (CHR ''9''), Range (CHR ''a'') (CHR ''f'')] c
        \<longleftrightarrow> ((48 \<le> u \<and> u \<le> 57) \<or> (48 \<le> v \<and> v \<le> 57) \<or> (48 \<le> w \<and> w \<le> 57))
          \<or> ((97 \<le> u \<and> u \<le> 102) \<or> (97 \<le> v \<and> v \<le> 102) \<or> (97 \<le> w \<and> w \<le> 102))"
    by (simp only: in_class_def if_True list_ex_Nil_iff list_ex_Cons_iff simp_thms
        in_cset_code_unit code_unit_literals u_def v_def w_def)
  also have "\<dots> \<longleftrightarrow> (48 \<le> u \<and> u \<le> 57) \<or> (97 \<le> u \<and> u \<le> 102) \<or> (65 \<le> u \<and> u \<le> 70)"
    unfolding v w by arith
  finally show ?thesis by (simp add: spec_hex_def Let_def u_def)
qed

lemma in_label_class:
  "in_class True [Range (CHR ''a'') (CHR ''z''), Range (CHR ''0'') (CHR ''9''),
                  Single (CHR ''_''), Single (CHR ''-'')] c = spec_label_char c"
proof -
  define u where "u = code_unit c"
  define v where "v = code_unit (toUpperCase c)"
  define w where "w = code_unit (toLowerCase c)"
  have v: "v = (if 97 \<le> u \<and> u \<le> 122 then u - 32 else u)"
    unfolding u_def v_def by (rule code_unit_toUpperCase)
  have w: "w = (if 65 \<le> u \<and> u \<le> 90 then u + 32 else u)"
    unfolding u_def w_def by (rule code_unit_toLowerCase)
  have "in_class True [Range (CHR ''a'') (CHR ''z''), Range (CHR ''0'') (CHR ''9''),
                  Single (CHR ''_''), Single (CHR ''-'')] c
        \<longleftrightarrow> ((97 \<le> u \<and> u \<le> 122) \<or> (97 \<le> v \<and> v \<le> 122) \<or> (97 \<le> w \<and> w \<le> 122))
          \<or> ((48 \<le> u \<and> u \<le> 57) \<or> (48 \<le> v \<and> v \<le> 57) \<or> (48 \<le> w \<and> w \<le> 57))
          \<or> (u = 95 \<or> v = 95 \<or> w = 95) \<or> (u = 45 \<or> v = 45 \<or> w = 45)"
    by (simp only: in_class_def if_True list_ex_Nil_iff list_ex_Cons_iff simp_thms
        in_cset_code_unit code_unit_literals u_def v_def w_def)
  also have "\<dots> \<longleftrightarrow> (97 \<le> u \<and> u \<le> 122) \<or> (65 \<le> u \<and> u \<le> 90) \<or> (48 \<le> u \<and> u \<le> 57)
                  \<or> u = 45 \<or> u = 95"
    unfolding v w by arith
  finally show ?thesis
    by (simp add: spec_label_char_def Let_def u_def code_unit_inj [of c] code_unit_literals)
qed

lemma in_single_lower:
  assumes "is_lower a"
  shows "in_class True [Single a] c \<longleftrightarrow> toLowerCase c = a"
proof -
  define u where "u = code_unit c"
  define k where "k = code_unit a"
  have v: "code_unit (toUpperCase c) = (if 97 \<le> u \<and> u \<le> 122 then u - 32 else u)"
    unfolding u_def by (rule code_unit_toUpperCase)
  have w: "code_unit (toLowerCase c) = (if 65 \<le> u \<and> u \<le> 90 then u + 32 else u)"
    unfolding u_def by (rule code_unit_toLowerCase)
  from assms have k: "97 \<le> k \<and> k \<le> 122" by (simp add: is_lower_def k_def)
  have "in_class True [Single a] c
        \<longleftrightarrow> u = k \<or> code_unit (toUpperCase c) = k \<or> code_unit (toLowerCase c) = k"
    by (simp only: in_class_def if_True list_ex_Nil_iff list_ex_Cons_iff simp_thms
        in_cset_code_unit u_def k_def)
  also have "\<dots> \<longleftrightarrow> code_unit (toLowerCase c) = k"
    unfolding v w using k by arith
  finally show ?thesis by (simp add: code_unit_inj [of "toLowerCase c"] k_def)
qed

lemma in_single_other:
  assumes "code_unit a < 65"
  shows "in_class True [Single a] c \<longleftrightarrow> c = a"
proof -
  define u where "u = code_unit c"
  define k where "k = code_unit a"
  have v: "code_unit (toUpperCase c) = (if 97 \<le> u \<and> u \<le> 122 then u - 32 else u)"
    unfolding u_def by (rule code_unit_toUpperCase)
  have w: "code_unit (toLowerCase c) = (if 65 \<le> u \<and> u \<le> 90 then u + 32 else u)"
    unfolding u_def by (rule code_unit_toLowerCase)
  from assms have k: "k < 65" by (simp add: k_def)
  have "in_class True [Single a] c
        \<longleftrightarrow> u = k \<or> code_unit (toUpperCase c) = k \<or> code_unit (toLowerCase c) = k"
    by (simp only: in_class_def if_True list_ex_Nil_iff list_ex_Cons_iff simp_thms
        in_cset_code_unit u_def k_def)
  also have "\<dots> \<longleftrightarrow> u = k"
    unfolding v w using k by arith
  finally show ?thesis by (simp add: code_unit_inj [of c] k_def u_def)
qed

section \<open>The languages of the three patterns\<close>

lemma conc_single:
  "conc {[c] | c. P c} B = {c # w | c w. P c \<and> w \<in> B}"
proof (intro set_eqI iffI)
  fix x
  assume "x \<in> conc {[c] | c. P c} B"
  then show "x \<in> {c # w | c w. P c \<and> w \<in> B}" by (auto simp: conc_def)
next
  fix x
  assume "x \<in> {c # w | c w. P c \<and> w \<in> B}"
  then obtain c w where "x = [c] @ w" "P c" "w \<in> B" by auto
  then show "x \<in> conc {[c] | c. P c} B" unfolding conc_def by blast
qed

lemma pow_chars: "pow {[c] | c. P c} n = {w. length w = n \<and> list_all P w}"
proof (induction n)
  case 0
  show ?case by auto
next
  case (Suc n)
  have "{c # w | c w. P c \<and> w \<in> {w. length w = n \<and> list_all P w}}
        = {w. length w = Suc n \<and> list_all P w}"
    by (auto simp: length_Suc_conv)
  with Suc show ?case by (simp add: conc_single)
qed

lemma star_chars: "star {[c] | c. P c} = {w. list_all P w}"
proof (intro set_eqI iffI)
  fix w
  assume "w \<in> star {[c] | c. P c}"
  then have "list_all P w" by (induction rule: star.induct) auto
  then show "w \<in> {w. list_all P w}" by simp
next
  fix w
  assume "w \<in> {w. list_all P w}"
  then have "list_all P w" by simp
  then show "w \<in> star {[c] | c. P c}"
  proof (induction w)
    case Nil
    show ?case by (rule star_empty)
  next
    case (Cons c w)
    then have "[c] \<in> {[c] | c. P c}" "w \<in> star {[c] | c. P c}" by auto
    then have "[c] @ w \<in> star {[c] | c. P c}" by (rule star_step)
    then show ?case by simp
  qed
qed

lemma plus_chars:
  "conc {[c] | c. P c} (star {[c] | c. P c}) = {w. w \<noteq> [] \<and> list_all P w}"
proof -
  have "{c # w | c w. P c \<and> w \<in> {w. list_all P w}} = {w. w \<noteq> [] \<and> list_all P w}"
    by (auto simp: neq_Nil_conv)
  then show ?thesis by (simp add: conc_single star_chars)
qed

lemma lang_lit_lower:
  "list_all is_lower s \<Longrightarrow> lang True (lit s) = {w. map toLowerCase w = s}"
proof (induction s)
  case Nil
  show ?case by simp
next
  case (Cons a s)
  then have a: "is_lower a" and IH: "lang True (lit s) = {w. map toLowerCase w = s}" by simp_all
  have "{c # w | c w. toLowerCase c = a \<and> w \<in> {w. map toLowerCase w = s}}
        = {w. map toLowerCase w = a # s}"
    by (auto simp: map_eq_Cons_conv)
  then show ?case by (simp add: conc_single IH in_single_lower [OF a])
qed

lemma lang_dot: "lang True (lit ''.'') = {''.''}"
proof -
  have "code_unit (CHR ''.'') < 65" by (simp add: code_unit_def)
  then show ?thesis by (auto simp: conc_def in_single_other)
qed

lemma lang_hex_times:
  "pow (lang True hex_class) n = {w. length w = n \<and> list_all spec_hex w}"
proof -
  have "(\<lambda>c. in_class True [Range (CHR ''0'') (CHR ''9''), Range (CHR ''a'') (CHR ''f'')] c)
        = spec_hex"
    by (rule ext) (rule in_hex_class)
  then show ?thesis
    using pow_chars
      [of "in_class True [Range (CHR ''0'') (CHR ''9''), Range (CHR ''a'') (CHR ''f'')]" n]
    by (simp add: hex_class_def)
qed

lemma lang_label_plus: "lang True (Plus label_class) = {w. spec_label w}"
proof -
  have "(\<lambda>c. in_class True [Range (CHR ''a'') (CHR ''z''), Range (CHR ''0'') (CHR ''9''),
                  Single (CHR ''_''), Single (CHR ''-'')] c) = spec_label_char"
    by (rule ext) (rule in_label_class)
  then show ?thesis
    using plus_chars
      [of "in_class True [Range (CHR ''a'') (CHR ''z''), Range (CHR ''0'') (CHR ''9''),
                  Single (CHR ''_''), Single (CHR ''-'')]"]
    by (simp add: label_class_def spec_label_def)
qed

lemma test_implicit: "test IMPLICIT_ADDRESS_REGEX t \<longleftrightarrow> spec_implicit t"
  by (simp add: test_def matches_lang IMPLICIT_ADDRESS_REGEX_def lang_hex_times spec_implicit_def)

lemma lang_0x: "lang True (lit ''0x'') = {w. map toLowerCase w = ''0x''}"
proof -
  have z: "code_unit (CHR ''0'') < 65" by (simp add: code_unit_def)
  have x: "is_lower (CHR ''x'')" by (simp add: is_lower_def code_unit_def)
  have "toLowerCase c = CHR ''0'' \<longleftrightarrow> c = CHR ''0''" for c
    using code_unit_toLowerCase [of c]
    by (simp add: code_unit_inj [of _ "CHR ''0''"] code_unit_literals split: if_splits)
  then have "{[c, d] | c d. c = CHR ''0'' \<and> toLowerCase d = CHR ''x''}
             = {w. map toLowerCase w = ''0x''}"
    by (auto simp: map_eq_Cons_conv)
  moreover have "lang True (lit ''0x'') = {[c, d] | c d. c = CHR ''0'' \<and> toLowerCase d = CHR ''x''}"
    by (auto simp: conc_def in_single_other [OF z] in_single_lower [OF x])
  ultimately show ?thesis by simp
qed

lemma prefix_0x_length: "map toLowerCase u = ''0x'' \<Longrightarrow> length u = 2"
proof -
  assume "map toLowerCase u = ''0x''"
  then have "length (map toLowerCase u) = length ''0x''" by (rule arg_cong)
  then show ?thesis by simp
qed

lemma ethereum_parts:
  assumes "map toLowerCase u = ''0x''" "length v = 40" "list_all spec_hex v"
  shows "spec_ethereum (u @ v)"
proof -
  have "length u = 2" using assms(1) by (rule prefix_0x_length)
  then have "take 2 (u @ v) = u" "drop 2 (u @ v) = v" by simp_all
  with assms show ?thesis by (simp only: spec_ethereum_def simp_thms)
qed

lemma ethereum_split:
  assumes "spec_ethereum t"
  shows "t \<in> conc {w. map toLowerCase w = ''0x''} {w. length w = 40 \<and> list_all spec_hex w}"
proof -
  from assms have "take 2 t \<in> {w. map toLowerCase w = ''0x''}"
    by (simp only: spec_ethereum_def mem_Collect_eq)
  moreover from assms have "drop 2 t \<in> {w. length w = 40 \<and> list_all spec_hex w}"
    by (simp only: spec_ethereum_def mem_Collect_eq simp_thms)
  ultimately have "take 2 t @ drop 2 t \<in>
      conc {w. map toLowerCase w = ''0x''} {w. length w = 40 \<and> list_all spec_hex w}"
    by (rule concI)
  then show ?thesis by (simp only: append_take_drop_id)
qed

lemma test_ethereum: "test ETHEREUM_LIKE_REGEX t \<longleftrightarrow> spec_ethereum t"
proof -
  have "t \<in> conc {w. map toLowerCase w = ''0x''} {w. length w = 40 \<and> list_all spec_hex w}
        \<longleftrightarrow> spec_ethereum t"
  proof
    assume "t \<in> conc {w. map toLowerCase w = ''0x''} {w. length w = 40 \<and> list_all spec_hex w}"
    then obtain u v where "t = u @ v" "u \<in> {w. map toLowerCase w = ''0x''}"
      "v \<in> {w. length w = 40 \<and> list_all spec_hex w}"
      by (rule concE)
    then show "spec_ethereum t" using ethereum_parts [of u v] by simp
  next
    assume "spec_ethereum t"
    then show "t \<in> conc {w. map toLowerCase w = ''0x''} {w. length w = 40 \<and> list_all spec_hex w}"
      by (rule ethereum_split)
  qed
  moreover have "lang True ETHEREUM_LIKE_REGEX
      = conc {w. map toLowerCase w = ''0x''} {w. length w = 40 \<and> list_all spec_hex w}"
    by (simp only: ETHEREUM_LIKE_REGEX_def lang.simps(4,8) lang_0x lang_hex_times)
  ultimately show ?thesis
    by (simp only: test_def matches_lang)
qed

section \<open>Named addresses\<close>

lemma split_dot_not_Nil: "split_dot t \<noteq> []"
  by (induction t) (auto split: list.splits)

lemma join_dot_Cons: "ls \<noteq> [] \<Longrightarrow> join_dot (l # ls) = l @ CHR ''.'' # join_dot ls"
  by (cases ls) simp_all

lemma join_dot_push: "join_dot ((c # l) # ls) = c # join_dot (l # ls)"
  by (cases ls) simp_all

lemma join_split_dot: "join_dot (split_dot t) = t"
proof (induction t)
  case Nil
  show ?case by simp
next
  case (Cons c cs)
  show ?case
  proof (cases "c = CHR ''.''")
    case True
    then show ?thesis using Cons by (simp add: join_dot_Cons split_dot_not_Nil)
  next
    case False
    obtain l ls where sp: "split_dot cs = l # ls"
      using split_dot_not_Nil [of cs] by (cases "split_dot cs") auto
    with False Cons show ?thesis by (simp add: join_dot_push)
  qed
qed

lemma split_dot_no_dot: "CHR ''.'' \<notin> set l \<Longrightarrow> split_dot l = [l]"
  by (induction l) auto

lemma split_dot_append:
  "CHR ''.'' \<notin> set l \<Longrightarrow> split_dot (l @ CHR ''.'' # r) = l # split_dot r"
  by (induction l) auto

lemma label_char_not_dot: "spec_label_char c \<Longrightarrow> c \<noteq> CHR ''.''"
  by (auto simp: spec_label_char_def Let_def code_unit_def)

lemma label_no_dot: "spec_label l \<Longrightarrow> CHR ''.'' \<notin> set l"
  using label_char_not_dot by (auto simp: spec_label_def list_all_iff)

lemma lower_label_char: "is_lower (toLowerCase c) \<Longrightarrow> spec_label_char c"
  using code_unit_toLowerCase [of c]
  by (auto simp: is_lower_def spec_label_char_def Let_def split: if_splits)

lemma suffix_label: "spec_suffix s \<Longrightarrow> spec_label s"
proof -
  assume a: "spec_suffix s"
  have "list_all is_lower ''near''" "list_all is_lower ''testnet''"
    by (simp_all add: is_lower_def code_unit_def)
  with a have "list_all is_lower (map toLowerCase s)" "map toLowerCase s \<noteq> []"
    by (auto simp: spec_suffix_def)
  then have "list_all spec_label_char s" "s \<noteq> []"
    using lower_label_char by (auto simp: list_all_iff)
  then show ?thesis by (simp add: spec_label_def)
qed

lemma named_forward:
  assumes "m \<in> star (conc {''.''} {w. spec_label w})"
  shows "spec_label l \<Longrightarrow> spec_suffix s \<Longrightarrow> spec_named (l @ m @ CHR ''.'' # s)"
  using assms
proof (induction arbitrary: l rule: star.induct)
  case star_empty
  then have "split_dot (l @ CHR ''.'' # s) = [l, s]"
    by (simp add: split_dot_append split_dot_no_dot label_no_dot suffix_label)
  with star_empty show ?case by (simp add: spec_named_def suffix_label)
next
  case (star_step u v)
  from star_step.hyps(1) obtain l' where u: "u = CHR ''.'' # l'" and l': "spec_label l'"
    by (auto elim!: concE)
  from star_step.prems l' have IH: "spec_named (l' @ v @ CHR ''.'' # s)"
    by (intro star_step.IH)
  have "split_dot (l @ (u @ v) @ CHR ''.'' # s) = l # split_dot (l' @ v @ CHR ''.'' # s)"
    using star_step.prems(1) by (simp add: u split_dot_append label_no_dot)
  with IH star_step.prems(1) show ?case
    by (auto simp: spec_named_def Let_def split_dot_not_Nil)
qed

lemma named_rest:
  "ls \<noteq> [] \<Longrightarrow> list_all spec_label ls \<Longrightarrow> spec_suffix (last ls) \<Longrightarrow>
   CHR ''.'' # join_dot ls
     \<in> conc (star (conc {''.''} {w. spec_label w})) (conc {''.''} {w. spec_suffix w})"
proof (induction ls rule: join_dot.induct)
  case 1
  then show ?case by simp
next
  case (2 s)
  then have s: "spec_suffix s" by simp
  have "''.'' @ s \<in> conc {''.''} {w. spec_suffix w}" by (rule concI) (simp_all add: s)
  then have "[] @ ''.'' @ s
      \<in> conc (star (conc {''.''} {w. spec_label w})) (conc {''.''} {w. spec_suffix w})"
    by (rule concI [OF star_empty])
  then show ?case by simp
next
  case (3 l l2 rest)
  then have "CHR ''.'' # join_dot (l2 # rest)
      \<in> conc (star (conc {''.''} {w. spec_label w})) (conc {''.''} {w. spec_suffix w})"
    by simp
  then obtain u v where uv: "CHR ''.'' # join_dot (l2 # rest) = u @ v"
      "u \<in> star (conc {''.''} {w. spec_label w})" "v \<in> conc {''.''} {w. spec_suffix w}"
    by (rule concE)
  from 3(3) have l: "spec_label l" by simp
  have "''.'' @ l \<in> conc {''.''} {w. spec_label w}" by (rule concI) (simp_all add: l)
  then have "(''.'' @ l) @ u \<in> star (conc {''.''} {w. spec_label w})"
    using uv(2) by (rule star_step)
  then have "((''.'' @ l) @ u) @ v
      \<in> conc (star (conc {''.''} {w. spec_label w})) (conc {''.''} {w. spec_suffix w})"
    using uv(3) by (rule concI)
  moreover have "((''.'' @ l) @ u) @ v = CHR ''.'' # join_dot (l # l2 # rest)"
    using uv(1) by simp
  ultimately show ?case by simp
qed

lemma lang_named:
  "lang True NAMED_ADDRESS_REGEX =
     conc {w. spec_label w}
       (conc (star (conc {''.''} {w. spec_label w})) (conc {''.''} {w. spec_suffix w}))"
proof -
  have near: "list_all is_lower ''near''" and testnet: "list_all is_lower ''testnet''"
    by (simp_all add: is_lower_def code_unit_def)
  have "lang True (Alt (lit ''near'') (lit ''testnet'')) = {w. spec_suffix w}"
    by (auto simp only: lang.simps(5) lang_lit_lower [OF near] lang_lit_lower [OF testnet]
        spec_suffix_def)
  then show ?thesis
    by (simp only: NAMED_ADDRESS_REGEX_def lang.simps(4,6) lang_label_plus lang_dot)
qed

lemma test_named: "test NAMED_ADDRESS_REGEX t \<longleftrightarrow> spec_named t"
proof
  assume "test NAMED_ADDRESS_REGEX t"
  then have "t \<in> conc {w. spec_label w}
       (conc (star (conc {''.''} {w. spec_label w})) (conc {''.''} {w. spec_suffix w}))"
    by (simp only: test_def matches_lang lang_named)
  then obtain l r where t: "t = l @ r" and l: "l \<in> {w. spec_label w}"
    and r: "r \<in> conc (star (conc {''.''} {w. spec_label w})) (conc {''.''} {w. spec_suffix w})"
    by (rule concE)
  from r obtain m d where rm: "r = m @ d" and m: "m \<in> star (conc {''.''} {w. spec_label w})"
    and d: "d \<in> conc {''.''} {w. spec_suffix w}"
    by (rule concE)
  from d obtain s where ds: "d = CHR ''.'' # s" and s: "spec_suffix s"
    by (auto elim!: concE)
  from named_forward [OF m, of l s] l s show "spec_named t"
    by (simp add: t rm ds)
next
  assume a: "spec_named t"
  then have len: "2 \<le> length (split_dot t)" by (simp add: spec_named_def Let_def)
  then obtain l ls where sp: "split_dot t = l # ls"
    by (cases "split_dot t") auto
  with len have ls: "ls \<noteq> []" by auto
  from a sp ls have lab: "spec_label l" "list_all spec_label ls" "spec_suffix (last ls)"
    by (simp_all add: spec_named_def)
  from lab(1) have "l \<in> {w. spec_label w}" by simp
  then have "l @ CHR ''.'' # join_dot ls \<in> conc {w. spec_label w}
       (conc (star (conc {''.''} {w. spec_label w})) (conc {''.''} {w. spec_suffix w}))"
    using named_rest [OF ls lab(2,3)] by (rule concI)
  moreover have "t = l @ CHR ''.'' # join_dot ls"
    using join_split_dot [of t] by (simp add: sp join_dot_Cons [OF ls])
  ultimately show "test NAMED_ADDRESS_REGEX t"
    by (simp only: test_def matches_lang lang_named)
qed

section \<open>The validator\<close>

lemma validateAccountId_eq:
  "validateAccountId raw =
     (if trim raw = [] then Some ''Please enter a NEAR account ID.''
      else if spec_implicit (trim raw) \<or> spec_named (trim raw) \<or> spec_ethereum (trim raw)
        then None
      else Some ''Please enter a valid NEAR account ID (implicit address, named address like alice.near, or Ethereum-like address like 0x...).'')"
  by (simp add: validateAccountId_def Let_def test_implicit test_named test_ethereum)

lemma validate_message_not_empty: "validateAccountId raw = Some m \<Longrightarrow> m \<noteq> []"
  by (auto simp: validateAccountId_eq split: if_splits)

lemma dropWhile_id: "xs \<noteq> [] \<Longrightarrow> \<not> P (hd xs) \<Longrightarrow> dropWhile P xs = xs"
  by (cases xs) simp_all

lemma trim_id:
  assumes "t \<noteq> []" "\<not> is_space (hd t)" "\<not> is_space (last t)"
  shows "trim t = t"
proof -
  have "dropWhile is_space t = t" using assms(1,2) by (rule dropWhile_id)
  moreover have "dropWhile is_space (rev t) = rev t"
    using assms(1,3) by (intro dropWhile_id) (simp_all add: hd_rev)
  ultimately show ?thesis by (simp add: trim_def)
qed

lemma hex_not_space: "spec_hex c \<Longrightarrow> \<not> is_space c"
  by (auto simp: spec_hex_def is_space_def Let_def)

lemma hex_not_dot: "spec_hex c \<Longrightarrow> c \<noteq> CHR ''.''"
  by (auto simp: spec_hex_def Let_def code_unit_def)

lemma validate_0x:
  assumes "list_all spec_hex h"
  shows "validateAccountId (''0x'' @ h) = None \<longleftrightarrow> length h = 40"
proof -
  let ?t = "''0x'' @ h"
  have last: "\<not> is_space (last ?t)"
  proof (cases "h = []")
    case True
    then show ?thesis by (simp add: is_space_def code_unit_def)
  next
    case False
    with assms have "spec_hex (last h)" by (simp add: list_all_iff)
    with False show ?thesis by (simp add: hex_not_space)
  qed
  have "\<not> is_space (hd ?t)" by (simp add: is_space_def code_unit_def)
  with last have tr: "trim ?t = ?t" by (intro trim_id) simp_all
  have "\<not> spec_hex (CHR ''x'')" by (simp add: spec_hex_def code_unit_def)
  then have ni: "\<not> spec_implicit ?t" by (simp add: spec_implicit_def)
  have "CHR ''.'' \<notin> set ?t" using assms hex_not_dot by (auto simp: list_all_iff)
  then have "split_dot ?t = [?t]" by (rule split_dot_no_dot)
  then have nn: "\<not> spec_named ?t" by (simp add: spec_named_def)
  have "map toLowerCase ''0x'' = ''0x''" by (simp add: toLowerCase_def code_unit_def)
  then have e: "spec_ethereum ?t \<longleftrightarrow> length h = 40"
    using assms by (simp add: spec_ethereum_def)
  show ?thesis
    unfolding validateAccountId_eq tr using ni nn e by simp
qed

text \<open>
  Claim C3, as it is written: the validator returns Valid if and only if the trimmed
  string is 64 hexadecimal characters, or one or more dot-separated labels whose final
  label is \<open>near\<close> or \<open>testnet\<close>, or \<open>0x\<close> and 40 hexadecimal characters. The single label
  \<open>near\<close> is such a string, and the page rejects it: the pattern asks for a label and a
  dot before the suffix.
\<close>

theorem bare_suffix_rejected:
  "\<not> (validateAccountId ''near'' = None \<longleftrightarrow>
        trim ''near'' \<noteq> [] \<and>
        (spec_implicit (trim ''near'') \<or> spec_named_literal (trim ''near'')
         \<or> spec_ethereum (trim ''near'')))"
proof -
  have "validateAccountId ''near'' \<noteq> None" by code_simp
  moreover have "trim ''near'' \<noteq> [] \<and> spec_named_literal (trim ''near'')" by code_simp
  ultimately show ?thesis by blast
qed

text \<open>
  Claim C3, amended. For every raw input the validator trims it; an empty result gets the
  message asking for an account ID; otherwise the result is Valid if and only if the
  trimmed string is, case-insensitively, exactly 64 hexadecimal characters, or one or more
  labels of letters, digits, hyphens and underscores followed by a dot and the suffix
  \<open>near\<close> or \<open>testnet\<close> (two or more dot-separated labels, the last one the suffix), or
  \<open>0x\<close> followed by exactly 40 hexadecimal characters; any other string gets the message
  naming the three shapes. So \<open>0x\<close> with \<open>n\<close> hexadecimal characters is Valid exactly for
  \<open>n = 40\<close>.
\<close>

theorem validateAccountId_shapes:
  "validateAccountId raw =
     (if trim raw = [] then Some ''Please enter a NEAR account ID.''
      else if spec_implicit (trim raw) \<or> spec_named (trim raw) \<or> spec_ethereum (trim raw)
        then None
      else Some ''Please enter a valid NEAR account ID (implicit address, named address like alice.near, or Ethereum-like address like 0x...).'')
   \<and> (list_all spec_hex h \<longrightarrow> (validateAccountId (''0x'' @ h) = None \<longleftrightarrow> length h = 40))"
  using validateAccountId_eq [of raw] validate_0x [of h] by blast

theorem validateAccountId_shapes_witness:
  "validateAccountId ''  Sub.Alice.NEAR '' = None
   \<and> validateAccountId ''   '' = Some ''Please enter a NEAR account ID.''
   \<and> list_all spec_hex ''85f17cf997934a597031b2e18a9ab6ebd4b9f6a4''
   \<and> validateAccountId (''0x'' @ ''85f17cf997934a597031b2e18a9ab6ebd4b9f6a4'') = None
   \<and> list_all spec_hex ''85f17cf997934a597031b2e18a9ab6ebd4b9f6a''
   \<and> validateAccountId (''0x'' @ ''85f17cf997934a597031b2e18a9ab6ebd4b9f6a'') \<noteq> None
   \<and> list_all spec_hex ''85f17cf997934a597031b2e18a9ab6ebd4b9f6a4f''
   \<and> validateAccountId (''0x'' @ ''85f17cf997934a597031b2e18a9ab6ebd4b9f6a4f'') \<noteq> None"
proof -
  have t1: "trim ''  Sub.Alice.NEAR '' = ''Sub.Alice.NEAR''" by code_simp
  have n1: "spec_named ''Sub.Alice.NEAR''" by code_simp
  have t2: "trim ''   '' = []" by code_simp
  have h40: "list_all spec_hex ''85f17cf997934a597031b2e18a9ab6ebd4b9f6a4''" by code_simp
  have h39: "list_all spec_hex ''85f17cf997934a597031b2e18a9ab6ebd4b9f6a''" by code_simp
  have h41: "list_all spec_hex ''85f17cf997934a597031b2e18a9ab6ebd4b9f6a4f''" by code_simp
  show ?thesis
    using validateAccountId_shapes [of "''  Sub.Alice.NEAR ''" "''85f17cf997934a597031b2e18a9ab6ebd4b9f6a4''"]
      validateAccountId_shapes [of "''   ''" "''85f17cf997934a597031b2e18a9ab6ebd4b9f6a''"]
      validateAccountId_shapes [of "''   ''" "''85f17cf997934a597031b2e18a9ab6ebd4b9f6a4f''"]
      h40 h39 h41
    by (simp add: t1 n1 t2)
qed

section \<open>One event at a time\<close>

lemma visible_requests [simp]: "visible (p\<lparr>requests := rs\<rparr>) = visible p"
  by (simp add: visible_def)

lemma requests_after_race:
  "requests (after_race i settlement p) = (requests p)[i := settle (requests p ! i)]"
  by (simp add: after_race_def Let_def split: sum.splits)

lemma ref_after_race: "abortControllerRef (after_race i settlement p) = abortControllerRef p"
  by (simp add: after_race_def Let_def split: sum.splits)

lemma visible_after_race_aborted:
  "aborted (requests p ! i) \<Longrightarrow> visible (after_race i settlement p) = visible p"
  by (simp add: after_race_def Let_def)

lemma requests_abort_current:
  "requests (abort_current p) =
     (case abortControllerRef p of
        None \<Rightarrow> requests p
      | Some i \<Rightarrow> (requests p)[i := (requests p ! i)\<lparr>aborted := True\<rparr>])"
  by (simp add: abort_current_def list_update_beyond split: option.splits)

lemma visible_abort_current [simp]: "visible (abort_current p) = visible p"
  by (simp add: abort_current_def split: option.splits)

lemma ref_abort_current [simp]: "abortControllerRef (abort_current p) = abortControllerRef p"
  by (simp add: abort_current_def split: option.splits)

lemma length_abort_current [simp]: "length (requests (abort_current p)) = length (requests p)"
  by (simp add: requests_abort_current split: option.splits)

lemma requests_response:
  assumes "i < length (requests p)"
  shows "requests (step fmt (Response i r) p) =
     (requests p)[i :=
        (let rq = requests p ! i;
             rq1 = rq\<lparr>fetchPromise := fetch_step fmt (aborted rq) r (fetchPromise rq)\<rparr>
         in if settled rq \<or> outcome (fetchPromise rq1) = None then rq1 else settle rq1)]"
  using assms by (simp add: Let_def requests_after_race split: option.splits)

lemma requests_timer:
  assumes "i < length (requests p)"
  shows "requests (step fmt (TimerFires i) p) =
     (requests p)[i :=
        (let rq = requests p ! i
         in case timeoutId rq of
              Pending d \<Rightarrow> if settled rq then rq\<lparr>timeoutId := Fired\<rparr>
                           else settle (rq\<lparr>timeoutId := Fired\<rparr>)
            | _ \<Rightarrow> rq)]"
  using assms by (simp add: Let_def requests_after_race split: timer.splits)

lemma ref_response: "abortControllerRef (step fmt (Response i r) p) = abortControllerRef p"
  by (simp add: Let_def ref_after_race split: option.splits)

lemma ref_timer: "abortControllerRef (step fmt (TimerFires i) p) = abortControllerRef p"
  by (simp add: Let_def ref_after_race split: timer.splits)

lemma visible_response_quiet:
  assumes "aborted (requests p ! i) \<or> settled (requests p ! i)"
  shows "visible (step fmt (Response i r) p) = visible p"
  using assms by (auto simp: Let_def visible_after_race_aborted split: option.splits)

lemma visible_timer_quiet:
  assumes "aborted (requests p ! i) \<or> settled (requests p ! i)"
  shows "visible (step fmt (TimerFires i) p) = visible p"
  using assms by (auto simp: Let_def visible_after_race_aborted split: timer.splits)

lemma requests_submit:
  "requests (step fmt Submit p) =
     (if truthy (validateAccountId (accountId p)) then requests p
      else requests (abort_current p) @
        [\<lparr>trimmedAccountId = trim (accountId p), aborted = False,
          timeoutId = Pending REQUEST_TIMEOUT, fetchPromise = AwaitConnect, settled = False\<rparr>])"
  by (simp add: handleFetchBalance_def Let_def)

lemma ref_submit:
  "abortControllerRef (step fmt Submit p) =
     (if truthy (validateAccountId (accountId p)) then abortControllerRef p
      else Some (length (requests p)))"
  by (simp add: handleFetchBalance_def Let_def)

lemma step_out_of_range:
  "\<not> i < length (requests p) \<Longrightarrow> step fmt (Response i r) p = p"
  "\<not> i < length (requests p) \<Longrightarrow> step fmt (TimerFires i) p = p"
  by simp_all

lemma step_simple:
  "step fmt (InputChange v) p = handleInputChange v p"
  "step fmt Unmount p = abort_current p"
  by simp_all

declare step.simps [simp del]

lemma page_inv_cong:
  "requests p' = requests p \<Longrightarrow> abortControllerRef p' = abortControllerRef p
   \<Longrightarrow> page_inv p' = page_inv p"
  by (simp add: page_inv_def)

text \<open>The list of requests only grows, and a request keeps its place.\<close>

lemma length_step: "length (requests p) \<le> length (requests (step fmt e p))"
proof (cases e)
  case (Response i r)
  then show ?thesis by (cases "i < length (requests p)") (simp_all add: requests_response step_out_of_range)
next
  case (TimerFires i)
  then show ?thesis by (cases "i < length (requests p)") (simp_all add: requests_timer step_out_of_range)
qed (simp_all add: requests_submit step_simple handleInputChange_def)

lemma nth_update_keeps:
  "j < length xs \<Longrightarrow> P (xs ! j) \<Longrightarrow> (i = j \<Longrightarrow> P x) \<Longrightarrow> P (xs[i := x] ! j)"
  by (cases "i = j") simp_all

text \<open>A flag that is set stays set.\<close>

lemma aborted_step:
  assumes "j < length (requests p)" and "aborted (requests p ! j)"
  shows "aborted (requests (step fmt e p) ! j)"
proof (cases e)
  case (InputChange v)
  with assms show ?thesis by (simp add: step_simple handleInputChange_def)
next
  case Submit
  have "aborted (requests (abort_current p) ! j)"
    using assms by (auto simp: requests_abort_current intro: nth_update_keeps split: option.splits)
  with assms Submit show ?thesis
    by (simp add: requests_submit nth_append)
next
  case Unmount
  with assms show ?thesis
    by (auto simp: step_simple requests_abort_current intro: nth_update_keeps
        split: option.splits)
next
  case (Response i r)
  with assms show ?thesis
    by (cases "i < length (requests p)")
       (simp_all add: requests_response step_out_of_range nth_list_update Let_def settle_def
        )
next
  case (TimerFires i)
  with assms show ?thesis
    by (cases "i < length (requests p)")
       (simp_all add: requests_timer step_out_of_range nth_list_update Let_def settle_def
         split: timer.splits)
qed

lemma settled_step:
  assumes "j < length (requests p)" and "settled (requests p ! j)"
  shows "settled (requests (step fmt e p) ! j)"
proof (cases e)
  case (InputChange v)
  with assms show ?thesis by (simp add: step_simple handleInputChange_def)
next
  case Submit
  have "settled (requests (abort_current p) ! j)"
    using assms by (auto simp: requests_abort_current intro: nth_update_keeps split: option.splits)
  with assms Submit show ?thesis
    by (simp add: requests_submit nth_append)
next
  case Unmount
  with assms show ?thesis
    by (auto simp: step_simple requests_abort_current intro: nth_update_keeps
        split: option.splits)
next
  case (Response i r)
  with assms show ?thesis
    by (cases "i < length (requests p)")
       (simp_all add: requests_response step_out_of_range nth_list_update Let_def settle_def
        )
next
  case (TimerFires i)
  with assms show ?thesis
    by (cases "i < length (requests p)")
       (simp_all add: requests_timer step_out_of_range nth_list_update Let_def settle_def
         split: timer.splits)
qed

lemma flags_run:
  assumes "j < length (requests p)"
  shows "j < length (requests (run fmt evs p))
       \<and> (aborted (requests p ! j) \<longrightarrow> aborted (requests (run fmt evs p) ! j))
       \<and> (settled (requests p ! j) \<longrightarrow> settled (requests (run fmt evs p) ! j))"
  using assms
proof (induction evs arbitrary: p)
  case Nil
  then show ?case by simp
next
  case (Cons e evs)
  from Cons.prems length_step [of p fmt e] have j: "j < length (requests (step fmt e p))"
    by simp
  from Cons.IH [OF j] aborted_step [OF Cons.prems, of fmt e] settled_step [OF Cons.prems, of fmt e]
  show ?case by simp
qed

section \<open>What every reachable page satisfies\<close>

lemma released_clearTimeout [simp]: "released (clearTimeout t)"
  by (cases t) (simp_all add: released_def clearTimeout_def)

lemma page_inv_init: "page_inv init_page"
  by (simp add: page_inv_def init_page_def)

lemma page_invI:
  assumes "\<And>i. abortControllerRef p = Some i \<Longrightarrow> i < length (requests p)"
    and "\<And>j. j < length (requests p) \<Longrightarrow> \<not> aborted (requests p ! j)
           \<Longrightarrow> abortControllerRef p = Some j"
    and "\<And>j. j < length (requests p) \<Longrightarrow> settled (requests p ! j)
           \<Longrightarrow> released (timeoutId (requests p ! j))"
  shows "page_inv p"
  unfolding page_inv_def using assms by blast

lemma page_inv_ref:
  "page_inv p \<Longrightarrow> abortControllerRef p = Some i \<Longrightarrow> i < length (requests p)"
  unfolding page_inv_def by blast

lemma page_inv_live:
  "page_inv p \<Longrightarrow> j < length (requests p) \<Longrightarrow> \<not> aborted (requests p ! j)
   \<Longrightarrow> abortControllerRef p = Some j"
  unfolding page_inv_def by blast

lemma page_inv_timer_released:
  "page_inv p \<Longrightarrow> j < length (requests p) \<Longrightarrow> settled (requests p ! j)
   \<Longrightarrow> released (timeoutId (requests p ! j))"
  unfolding page_inv_def by blast

text \<open>Replacing one request keeps the invariant if its flag and its timer allow it.\<close>

lemma page_inv_update:
  assumes inv: "page_inv p"
    and rs: "requests p' = (requests p)[i := x]"
    and ref: "abortControllerRef p' = abortControllerRef p"
    and i: "i < length (requests p)"
    and ab: "aborted (requests p ! i) \<Longrightarrow> aborted x"
    and tm: "settled x \<Longrightarrow> released (timeoutId x)"
  shows "page_inv p'"
proof (rule page_invI)
  fix k
  assume "abortControllerRef p' = Some k"
  with inv ref have "k < length (requests p)" by (simp add: page_inv_ref)
  then show "k < length (requests p')" by (simp add: rs)
next
  fix j
  assume j: "j < length (requests p')" and na: "\<not> aborted (requests p' ! j)"
  from j have j': "j < length (requests p)" by (simp add: rs)
  have "\<not> aborted (requests p ! j)"
  proof (cases "i = j")
    case True
    with na i ab show ?thesis by (auto simp: rs)
  next
    case False
    with na show ?thesis by (simp add: rs)
  qed
  with inv j' have "abortControllerRef p = Some j" by (rule page_inv_live)
  then show "abortControllerRef p' = Some j" by (simp add: ref)
next
  fix j
  assume j: "j < length (requests p')" and st: "settled (requests p' ! j)"
  from j have j': "j < length (requests p)" by (simp add: rs)
  show "released (timeoutId (requests p' ! j))"
  proof (cases "i = j")
    case True
    with st i tm show ?thesis by (simp add: rs)
  next
    case False
    with st have "settled (requests p ! j)" by (simp add: rs)
    with inv j' have "released (timeoutId (requests p ! j))" by (rule page_inv_timer_released)
    with False show ?thesis by (simp add: rs)
  qed
qed

lemma page_inv_abort_current:
  assumes "page_inv p"
  shows "page_inv (abort_current p)"
proof (cases "abortControllerRef p")
  case None
  with assms show ?thesis by (simp add: abort_current_def)
next
  case (Some i)
  with assms have i: "i < length (requests p)" by (simp add: page_inv_ref)
  have rs: "requests (abort_current p) = (requests p)[i := (requests p ! i)\<lparr>aborted := True\<rparr>]"
    using Some by (simp add: requests_abort_current)
  show ?thesis
  proof (rule page_inv_update [OF assms rs _ i])
    show "abortControllerRef (abort_current p) = abortControllerRef p" by simp
    show "aborted ((requests p ! i)\<lparr>aborted := True\<rparr>)" by simp
    assume "settled ((requests p ! i)\<lparr>aborted := True\<rparr>)"
    then have "settled (requests p ! i)" by simp
    with assms i have "released (timeoutId (requests p ! i))" by (rule page_inv_timer_released)
    then show "released (timeoutId ((requests p ! i)\<lparr>aborted := True\<rparr>))" by simp
  qed
qed

lemma all_aborted_abort_current:
  assumes "page_inv p" and "j < length (requests p)"
  shows "aborted (requests (abort_current p) ! j)"
proof (cases "abortControllerRef p")
  case None
  with assms page_inv_live [of p j] show ?thesis by (auto simp: requests_abort_current)
next
  case (Some i)
  with assms have i: "i < length (requests p)" by (simp add: page_inv_ref)
  show ?thesis
  proof (cases "i = j")
    case True
    with Some i show ?thesis by (simp add: requests_abort_current)
  next
    case False
    with assms Some page_inv_live [of p j] have "aborted (requests p ! j)" by auto
    with False Some show ?thesis by (simp add: requests_abort_current)
  qed
qed

lemma page_inv_submit:
  assumes "page_inv p"
  shows "page_inv (step fmt Submit p)"
proof (cases "truthy (validateAccountId (accountId p))")
  case True
  then have "page_inv (step fmt Submit p) = page_inv p"
    by (intro page_inv_cong) (simp_all add: requests_submit ref_submit)
  with assms show ?thesis by simp
next
  case False
  let ?n = "length (requests p)"
  have inv': "page_inv (abort_current p)" using assms by (rule page_inv_abort_current)
  have rs: "requests (step fmt Submit p) = requests (abort_current p) @
        [\<lparr>trimmedAccountId = trim (accountId p), aborted = False,
          timeoutId = Pending REQUEST_TIMEOUT, fetchPromise = AwaitConnect, settled = False\<rparr>]"
    using False by (simp add: requests_submit)
  have ref: "abortControllerRef (step fmt Submit p) = Some ?n"
    using False by (simp add: ref_submit)
  show ?thesis
  proof (rule page_invI)
    fix k
    assume "abortControllerRef (step fmt Submit p) = Some k"
    with ref have "k = ?n" by simp
    then show "k < length (requests (step fmt Submit p))" by (simp add: rs)
  next
    fix j
    assume j: "j < length (requests (step fmt Submit p))"
      and na: "\<not> aborted (requests (step fmt Submit p) ! j)"
    have "j = ?n"
    proof (rule ccontr)
      assume "j \<noteq> ?n"
      with j have j': "j < ?n" by (simp add: rs)
      with assms have "aborted (requests (abort_current p) ! j)"
        by (rule all_aborted_abort_current)
      with j' na show False by (simp add: rs nth_append)
    qed
    with ref show "abortControllerRef (step fmt Submit p) = Some j" by simp
  next
    fix j
    assume j: "j < length (requests (step fmt Submit p))"
      and st: "settled (requests (step fmt Submit p) ! j)"
    have j': "j < ?n"
    proof (rule ccontr)
      assume "\<not> j < ?n"
      with j have "j = ?n" by (simp add: rs)
      with st show False by (simp add: rs nth_append)
    qed
    with st have "settled (requests (abort_current p) ! j)" by (simp add: rs nth_append)
    with inv' j' have "released (timeoutId (requests (abort_current p) ! j))"
      by (intro page_inv_timer_released) simp_all
    with j' show "released (timeoutId (requests (step fmt Submit p) ! j))"
      by (simp add: rs nth_append)
  qed
qed

lemma page_inv_response:
  assumes "page_inv p"
  shows "page_inv (step fmt (Response i r) p)"
proof (cases "i < length (requests p)")
  case False
  with assms show ?thesis by (simp add: step_out_of_range)
next
  case True
  let ?rq = "requests p ! i"
  let ?rq1 = "?rq\<lparr>fetchPromise := fetch_step fmt (aborted ?rq) r (fetchPromise ?rq)\<rparr>"
  let ?x = "if settled ?rq \<or> outcome (fetchPromise ?rq1) = None then ?rq1 else settle ?rq1"
  have rs: "requests (step fmt (Response i r) p) = (requests p)[i := ?x]"
    using requests_response [OF True, of fmt r] by (simp add: Let_def)
  show ?thesis
  proof (rule page_inv_update [OF assms rs ref_response True])
    show "aborted ?x" if "aborted ?rq" using that by (simp add: settle_def)
    show "released (timeoutId ?x)" if "settled ?x"
    proof (cases "settled ?rq")
      case True
      with assms \<open>i < length (requests p)\<close> have "released (timeoutId ?rq)"
        by (intro page_inv_timer_released)
      with True show ?thesis by simp
    next
      case False
      with that show ?thesis by (auto simp: settle_def split: if_splits)
    qed
  qed
qed

lemma page_inv_timer:
  assumes "page_inv p"
  shows "page_inv (step fmt (TimerFires i) p)"
proof (cases "i < length (requests p)")
  case False
  with assms show ?thesis by (simp add: step_out_of_range)
next
  case True
  let ?rq = "requests p ! i"
  let ?x = "case timeoutId ?rq of
              Pending d \<Rightarrow> if settled ?rq then ?rq\<lparr>timeoutId := Fired\<rparr>
                           else settle (?rq\<lparr>timeoutId := Fired\<rparr>)
            | _ \<Rightarrow> ?rq"
  have rs: "requests (step fmt (TimerFires i) p) = (requests p)[i := ?x]"
    using requests_timer [OF True, of fmt] by (simp add: Let_def)
  have old: "settled ?rq \<Longrightarrow> released (timeoutId ?rq)"
    using assms True by (intro page_inv_timer_released)
  show ?thesis
  proof (rule page_inv_update [OF assms rs ref_timer True])
    show "aborted ?x" if "aborted ?rq"
      using that by (cases "timeoutId ?rq") (simp_all add: settle_def)
    show "released (timeoutId ?x)" if "settled ?x"
      using that old
      by (cases "timeoutId ?rq") (auto simp: settle_def released_def clearTimeout_def split: if_splits)
  qed
qed

lemma page_inv_step: "page_inv p \<Longrightarrow> page_inv (step fmt e p)"
proof (cases e)
  case (InputChange v)
  have "page_inv (handleInputChange v p) = page_inv p"
    by (intro page_inv_cong) (simp_all add: handleInputChange_def)
  moreover assume "page_inv p"
  ultimately show ?thesis using InputChange by (simp add: step_simple)
next
  case Submit
  assume "page_inv p"
  with Submit show ?thesis using page_inv_submit by simp
next
  case Unmount
  assume "page_inv p"
  with Unmount show ?thesis using page_inv_abort_current by (simp add: step_simple)
next
  case (Response i r)
  assume "page_inv p"
  with Response show ?thesis using page_inv_response by simp
next
  case (TimerFires i)
  assume "page_inv p"
  with TimerFires show ?thesis using page_inv_timer by simp
qed

lemma page_inv_run: "page_inv p \<Longrightarrow> page_inv (run fmt evs p)"
  by (induction evs arbitrary: p) (simp_all add: page_inv_step)

lemma page_inv_reachable: "page_inv (run fmt evs init_page)"
  using page_inv_init by (rule page_inv_run)

text \<open>A fetch that has ended has been seen by its handler.\<close>

lemma ended_invD:
  "ended_inv p \<Longrightarrow> j < length (requests p) \<Longrightarrow> ended (requests p ! j) \<Longrightarrow> settled (requests p ! j)"
  unfolding ended_inv_def by blast

lemma ended_inv_init: "ended_inv init_page"
  by (simp add: ended_inv_def init_page_def)

lemma ended_inv_same: "requests p' = requests p \<Longrightarrow> ended_inv p' = ended_inv p"
  by (simp add: ended_inv_def)

lemma ended_inv_update:
  assumes inv: "ended_inv p"
    and rs: "requests p' = (requests p)[i := x]"
    and i: "i < length (requests p)"
    and x: "ended x \<Longrightarrow> settled x"
  shows "ended_inv p'"
  unfolding ended_inv_def
proof (intro allI impI)
  fix j
  assume j: "j < length (requests p')" and e: "ended (requests p' ! j)"
  from j have j': "j < length (requests p)" by (simp add: rs)
  show "settled (requests p' ! j)"
  proof (cases "i = j")
    case True
    with e i x show ?thesis by (simp add: rs)
  next
    case False
    with e have "ended (requests p ! j)" by (simp add: rs)
    with inv j' have "settled (requests p ! j)" by (rule ended_invD)
    with False show ?thesis by (simp add: rs)
  qed
qed

lemma ended_inv_abort_current:
  assumes "ended_inv p"
  shows "ended_inv (abort_current p)"
proof (cases "abortControllerRef p")
  case None
  then show ?thesis using assms by (simp add: abort_current_def)
next
  case (Some i)
  show ?thesis
  proof (cases "i < length (requests p)")
    case False
    with Some assms show ?thesis by (simp add: abort_current_def)
  next
    case True
    have rs: "requests (abort_current p) = (requests p)[i := (requests p ! i)\<lparr>aborted := True\<rparr>]"
      using Some by (simp add: requests_abort_current)
    show ?thesis
    proof (rule ended_inv_update [OF assms rs True])
      assume "ended ((requests p ! i)\<lparr>aborted := True\<rparr>)"
      then have "ended (requests p ! i)" by (simp add: ended_def)
      with assms True have "settled (requests p ! i)" by (rule ended_invD)
      then show "settled ((requests p ! i)\<lparr>aborted := True\<rparr>)" by simp
    qed
  qed
qed

lemma ended_inv_submit:
  assumes "ended_inv p"
  shows "ended_inv (step fmt Submit p)"
proof (cases "truthy (validateAccountId (accountId p))")
  case True
  then have "ended_inv (step fmt Submit p) = ended_inv p"
    by (intro ended_inv_same) (simp add: requests_submit)
  with assms show ?thesis by simp
next
  case False
  have inv': "ended_inv (abort_current p)" using assms by (rule ended_inv_abort_current)
  have rs: "requests (step fmt Submit p) = requests (abort_current p) @
        [\<lparr>trimmedAccountId = trim (accountId p), aborted = False,
          timeoutId = Pending REQUEST_TIMEOUT, fetchPromise = AwaitConnect, settled = False\<rparr>]"
    using False by (simp add: requests_submit)
  show ?thesis
    unfolding ended_inv_def
  proof (intro allI impI)
    fix j
    assume j: "j < length (requests (step fmt Submit p))"
      and e: "ended (requests (step fmt Submit p) ! j)"
    have j': "j < length (requests (abort_current p))"
    proof (rule ccontr)
      assume "\<not> j < length (requests (abort_current p))"
      with j have "j = length (requests (abort_current p))" by (simp add: rs)
      with e show False by (simp add: rs nth_append ended_def outcome_def)
    qed
    with e have "ended (requests (abort_current p) ! j)" by (simp add: rs nth_append)
    with inv' j' have "settled (requests (abort_current p) ! j)" by (rule ended_invD)
    with j' show "settled (requests (step fmt Submit p) ! j)" by (simp add: rs nth_append)
  qed
qed

lemma ended_inv_response:
  assumes "ended_inv p"
  shows "ended_inv (step fmt (Response i r) p)"
proof (cases "i < length (requests p)")
  case False
  with assms show ?thesis by (simp add: step_out_of_range)
next
  case True
  let ?rq = "requests p ! i"
  let ?rq1 = "?rq\<lparr>fetchPromise := fetch_step fmt (aborted ?rq) r (fetchPromise ?rq)\<rparr>"
  let ?x = "if settled ?rq \<or> outcome (fetchPromise ?rq1) = None then ?rq1 else settle ?rq1"
  have rs: "requests (step fmt (Response i r) p) = (requests p)[i := ?x]"
    using requests_response [OF True, of fmt r] by (simp add: Let_def)
  show ?thesis
  proof (rule ended_inv_update [OF assms rs True])
    assume "ended ?x"
    then show "settled ?x"
      by (cases "settled ?rq") (auto simp: ended_def settle_def split: if_splits)
  qed
qed

lemma ended_inv_timer:
  assumes "ended_inv p"
  shows "ended_inv (step fmt (TimerFires i) p)"
proof (cases "i < length (requests p)")
  case False
  with assms show ?thesis by (simp add: step_out_of_range)
next
  case True
  let ?rq = "requests p ! i"
  let ?x = "case timeoutId ?rq of
              Pending d \<Rightarrow> if settled ?rq then ?rq\<lparr>timeoutId := Fired\<rparr>
                           else settle (?rq\<lparr>timeoutId := Fired\<rparr>)
            | _ \<Rightarrow> ?rq"
  have rs: "requests (step fmt (TimerFires i) p) = (requests p)[i := ?x]"
    using requests_timer [OF True, of fmt] by (simp add: Let_def)
  have old: "ended ?rq \<Longrightarrow> settled ?rq"
    using assms True by (rule ended_invD)
  show ?thesis
  proof (rule ended_inv_update [OF assms rs True])
    assume "ended ?x"
    then show "settled ?x"
      using old by (cases "timeoutId ?rq") (auto simp: ended_def settle_def split: if_splits)
  qed
qed

lemma ended_inv_step: "ended_inv p \<Longrightarrow> ended_inv (step fmt e p)"
proof (cases e)
  case (InputChange v)
  have "ended_inv (handleInputChange v p) = ended_inv p"
    by (intro ended_inv_same) (simp add: handleInputChange_def)
  moreover assume "ended_inv p"
  ultimately show ?thesis using InputChange by (simp add: step_simple)
next
  case Submit
  assume "ended_inv p"
  with Submit show ?thesis using ended_inv_submit by simp
next
  case Unmount
  assume "ended_inv p"
  with Unmount show ?thesis using ended_inv_abort_current by (simp add: step_simple)
next
  case (Response i r)
  assume "ended_inv p"
  with Response show ?thesis using ended_inv_response by simp
next
  case (TimerFires i)
  assume "ended_inv p"
  with TimerFires show ?thesis using ended_inv_timer by simp
qed

lemma ended_inv_run: "ended_inv p \<Longrightarrow> ended_inv (run fmt evs p)"
  by (induction evs arbitrary: p) (simp_all add: ended_inv_step)

lemma released_after_expiry:
  assumes "i < length (requests p)"
  shows "released (timeoutId (requests (step fmt (TimerFires i) p) ! i))"
  using assms
  by (cases "timeoutId (requests p ! i)")
     (simp_all add: requests_timer Let_def settle_def released_def clearTimeout_def)


lemma ended_inv_reachable: "ended_inv (run fmt evs init_page)"
  by (rule ended_inv_run) (rule ended_inv_init)

section \<open>The join of the two balance queries\<close>

lemma convert_fulfilled:
  "convert fmt a s =
     Fulfilled \<lparr>available = fmt (toString a) 4, staked = fmt (toString s) 4,
                total = fmt (toString (a + s)) 4\<rparr>"
  by (simp add: convert_def balanceRecord_toString)

lemma fetch_run_settled:
  "fetch_run fmt rs (Fulfilled result) = Fulfilled result"
  "fetch_run fmt rs (Rejected e) = Rejected e"
  by (induction rs) (auto simp: fetch_step_def)

lemma fetch_step_balances:
  "(\<exists>x' y'. fetch_step fmt ab r (AwaitBalances x y) = AwaitBalances x' y'
        \<and> (x' = x \<or> (\<exists>a. r = LiquidOk a \<and> x' = Some a))
        \<and> (y' = y \<or> (\<exists>s. r = StakedOk s \<and> y' = Some s)))
   \<or> (\<exists>e. fetch_step fmt ab r (AwaitBalances x y) = Rejected e)
   \<or> (\<exists>a s. fetch_step fmt ab r (AwaitBalances x y) = convert fmt a s
        \<and> (x = Some a \<or> r = LiquidOk a) \<and> (y = Some s \<or> r = StakedOk s))"
proof (cases r)
  case (LiquidOk a)
  then show ?thesis by (cases x; cases y) (simp_all add: fetch_step_def join_def)
next
  case (StakedOk s)
  then show ?thesis by (cases x; cases y) (simp_all add: fetch_step_def join_def)
next
  case (LiquidErr e)
  then show ?thesis by (cases x) (simp_all add: fetch_step_def)
next
  case (StakedErr e)
  then show ?thesis by (cases y) (simp_all add: fetch_step_def)
qed (simp_all add: fetch_step_def)

lemma fetch_run_fulfilled:
  "fetch_run fmt rs (AwaitBalances x y) = Fulfilled result \<Longrightarrow>
   \<exists>a s. (x = Some a \<or> LiquidOk a \<in> snd ` set rs) \<and> (y = Some s \<or> StakedOk s \<in> snd ` set rs)
     \<and> balanceRecord fmt (toString a) (toString s) = Some result"
proof (induction rs arbitrary: x y)
  case Nil
  then show ?case by simp
next
  case (Cons abr rs)
  obtain ab r where abr: "abr = (ab, r)" by (cases abr)
  from fetch_step_balances [of fmt ab r x y]
  consider
    (wait) x' y' where "fetch_step fmt ab r (AwaitBalances x y) = AwaitBalances x' y'"
      "x' = x \<or> (\<exists>a. r = LiquidOk a \<and> x' = Some a)"
      "y' = y \<or> (\<exists>s. r = StakedOk s \<and> y' = Some s)"
  | (rejected) e where "fetch_step fmt ab r (AwaitBalances x y) = Rejected e"
  | (converted) a s where "fetch_step fmt ab r (AwaitBalances x y) = convert fmt a s"
      "x = Some a \<or> r = LiquidOk a" "y = Some s \<or> r = StakedOk s"
    by blast
  then show ?case
  proof cases
    case wait
    with Cons.prems abr have "fetch_run fmt rs (AwaitBalances x' y') = Fulfilled result" by simp
    from Cons.IH [OF this] obtain a s where
      as: "x' = Some a \<or> LiquidOk a \<in> snd ` set rs" "y' = Some s \<or> StakedOk s \<in> snd ` set rs"
        "balanceRecord fmt (toString a) (toString s) = Some result"
      by blast
    from as(1) wait(2) have "x = Some a \<or> LiquidOk a \<in> snd ` set (abr # rs)"
      unfolding abr by force
    moreover from as(2) wait(3) have "y = Some s \<or> StakedOk s \<in> snd ` set (abr # rs)"
      unfolding abr by force
    ultimately show ?thesis using as(3) by blast
  next
    case rejected
    with Cons.prems abr show ?thesis by (simp add: fetch_run_settled)
  next
    case converted
    with Cons.prems abr have "convert fmt a s = Fulfilled result"
      by (simp add: convert_fulfilled fetch_run_settled)
    then have "balanceRecord fmt (toString a) (toString s) = Some result"
      by (simp add: convert_fulfilled balanceRecord_toString)
    moreover from converted(2) have "x = Some a \<or> LiquidOk a \<in> snd ` set (abr # rs)"
      unfolding abr by force
    moreover from converted(3) have "y = Some s \<or> StakedOk s \<in> snd ` set (abr # rs)"
      unfolding abr by force
    ultimately show ?thesis by blast
  qed
qed

text \<open>
  Claim C9. The two balance queries are started together when the account handle has
  arrived, and they are joined: after one result the function still waits and no record
  exists; a record is produced only when a liquid and a staked result have both arrived,
  and it is the record of these two amounts; and when either query fails while it is
  awaited, the fetch fails with the error of that query.
\<close>

theorem balances_are_joined:
  "fetch_step fmt False AccountOk AwaitAccount = AwaitBalances None None
   \<and> fetch_step fmt ab (LiquidOk a) (AwaitBalances None None) = AwaitBalances (Some a) None
   \<and> fetch_step fmt ab (StakedOk s) (AwaitBalances None None) = AwaitBalances None (Some s)
   \<and> fetch_step fmt False (StakedOk s) (AwaitBalances (Some a) None) =
       Fulfilled \<lparr>available = fmt (toString a) 4, staked = fmt (toString s) 4,
                  total = fmt (toString (a + s)) 4\<rparr>
   \<and> fetch_step fmt False (LiquidOk a) (AwaitBalances None (Some s)) =
       Fulfilled \<lparr>available = fmt (toString a) 4, staked = fmt (toString s) 4,
                  total = fmt (toString (a + s)) 4\<rparr>
   \<and> (fetch_run fmt rs (AwaitBalances None None) = Fulfilled result \<longrightarrow>
        (\<exists>a' s'. LiquidOk a' \<in> snd ` set rs \<and> StakedOk s' \<in> snd ` set rs
           \<and> balanceRecord fmt (toString a') (toString s') = Some result))
   \<and> fetch_step fmt ab (LiquidErr e) (AwaitBalances None y) = Rejected e
   \<and> fetch_step fmt ab (StakedErr e) (AwaitBalances x None) = Rejected e"
proof -
  have "fetch_run fmt rs (AwaitBalances None None) = Fulfilled result \<longrightarrow>
        (\<exists>a' s'. LiquidOk a' \<in> snd ` set rs \<and> StakedOk s' \<in> snd ` set rs
           \<and> balanceRecord fmt (toString a') (toString s') = Some result)"
    using fetch_run_fulfilled [of fmt rs None None result] by simp
  then show ?thesis
    by (simp add: fetch_step_def join_def convert_fulfilled)
qed

theorem balances_are_joined_witness:
  "fetch_run (\<lambda>balance fracDigits. balance)
      [(False, StakedOk 5), (False, LiquidOk 7)] (AwaitBalances None None)
     = Fulfilled \<lparr>available = ''7'', staked = ''5'', total = ''12''\<rparr>
   \<and> (\<exists>a' s'. LiquidOk a' \<in> snd ` set [(False, StakedOk 5), (False, LiquidOk 7)]
        \<and> StakedOk s' \<in> snd ` set [(False, StakedOk 5), (False, LiquidOk 7)]
        \<and> balanceRecord (\<lambda>balance fracDigits. balance) (toString a') (toString s')
            = Some \<lparr>available = ''7'', staked = ''5'', total = ''12''\<rparr>)"
proof -
  have run: "fetch_run (\<lambda>balance fracDigits. balance)
      [(False, StakedOk 5), (False, LiquidOk 7)] (AwaitBalances None None)
     = Fulfilled \<lparr>available = ''7'', staked = ''5'', total = ''12''\<rparr>"
    by code_simp
  show ?thesis
    using run
      balances_are_joined [of "\<lambda>balance fracDigits. balance" _ _ _
        "[(False, StakedOk 5), (False, LiquidOk 7)]"
        "\<lparr>available = ''7'', staked = ''5'', total = ''12''\<rparr>"]
    by blast
qed

section \<open>Submitting an invalid input\<close>

text \<open>
  Claim C8. When the input fails validation, submitting it sets the validation message
  and nothing else: the list of requests (no new request, no cancellation), the reference
  to the current controller, the loading flag, the balance and the fetched identifier
  stay as they were.
\<close>

theorem invalid_input_only_sets_error:
  assumes "validateAccountId (accountId p) = Some m"
  shows "step fmt Submit p = p\<lparr>error := Some m\<rparr>"
proof -
  from assms have "m \<noteq> []" by (rule validate_message_not_empty)
  with assms show ?thesis by (simp add: step.simps handleFetchBalance_def)
qed

theorem invalid_input_only_sets_error_witness:
  "validateAccountId (accountId (init_page\<lparr>accountId := ''not_a_valid_id!!''\<rparr>)) =
     Some ''Please enter a valid NEAR account ID (implicit address, named address like alice.near, or Ethereum-like address like 0x...).''
   \<and> step (\<lambda>balance fracDigits. balance) Submit (init_page\<lparr>accountId := ''not_a_valid_id!!''\<rparr>) =
     init_page\<lparr>accountId := ''not_a_valid_id!!'',
       error := Some ''Please enter a valid NEAR account ID (implicit address, named address like alice.near, or Ethereum-like address like 0x...).''\<rparr>"
proof -
  have v: "validateAccountId ''not_a_valid_id!!'' =
     Some ''Please enter a valid NEAR account ID (implicit address, named address like alice.near, or Ethereum-like address like 0x...).''"
    by code_simp
  then have h: "validateAccountId (accountId (init_page\<lparr>accountId := ''not_a_valid_id!!''\<rparr>)) =
     Some ''Please enter a valid NEAR account ID (implicit address, named address like alice.near, or Ethereum-like address like 0x...).''"
    by simp
  show ?thesis
    using h invalid_input_only_sets_error [OF h, of "\<lambda>balance fracDigits. balance"] by simp
qed

section \<open>Supersession\<close>

lemma submit_new_request:
  assumes "validateAccountId (accountId p) = None"
  shows "requests (step fmt Submit p) = requests (abort_current p) @
        [\<lparr>trimmedAccountId = trim (accountId p), aborted = False,
          timeoutId = Pending REQUEST_TIMEOUT, fetchPromise = AwaitConnect, settled = False\<rparr>]"
  using assms by (simp add: requests_submit)

lemma quiet_after:
  assumes "j < length (requests p)" and "aborted (requests p ! j) \<or> settled (requests p ! j)"
  shows "visible (step fmt (Response j r) (run fmt evs p)) = visible (run fmt evs p)
       \<and> visible (step fmt (TimerFires j) (run fmt evs p)) = visible (run fmt evs p)"
proof -
  from flags_run [OF assms(1), of fmt evs] assms(2)
  have "aborted (requests (run fmt evs p) ! j) \<or> settled (requests (run fmt evs p) ! j)"
    by blast
  then show ?thesis by (simp add: visible_response_quiet visible_timer_quiet)
qed

text \<open>
  Claim C4. On every page that events have led to: a valid submission leaves every
  earlier request cancelled and starts one new running request; at most one request is
  running and not cancelled; and once a request is cancelled it stays cancelled, and
  neither a result or error of its fetch nor its timer changes what the page shows
  (balance, fetched identifier, loading flag, error message), whatever happens in between.
\<close>

theorem supersession:
  assumes "p = run fmt evs init_page"
  shows "(validateAccountId (accountId p) = None \<longrightarrow>
            (\<forall>j < length (requests p). aborted (requests (step fmt Submit p) ! j))
            \<and> length (requests (step fmt Submit p)) = Suc (length (requests p))
            \<and> running (requests (step fmt Submit p) ! length (requests p)))
       \<and> (\<forall>i j. i < length (requests p) \<and> j < length (requests p)
             \<and> running (requests p ! i) \<and> running (requests p ! j) \<longrightarrow> i = j)
       \<and> (\<forall>j evs' r. j < length (requests p) \<and> aborted (requests p ! j) \<longrightarrow>
             aborted (requests (run fmt evs' p) ! j)
             \<and> visible (step fmt (Response j r) (run fmt evs' p)) = visible (run fmt evs' p)
             \<and> visible (step fmt (TimerFires j) (run fmt evs' p)) = visible (run fmt evs' p))"
proof -
  have inv: "page_inv p" unfolding assms by (rule page_inv_reachable)
  have old: "aborted (requests (step fmt Submit p) ! j)"
    if v: "validateAccountId (accountId p) = None" and j: "j < length (requests p)" for j
  proof -
    from inv j have "aborted (requests (abort_current p) ! j)"
      by (rule all_aborted_abort_current)
    with j show ?thesis by (simp add: submit_new_request [OF v] nth_append)
  qed
  have new: "length (requests (step fmt Submit p)) = Suc (length (requests p))
      \<and> running (requests (step fmt Submit p) ! length (requests p))"
    if v: "validateAccountId (accountId p) = None"
    by (simp add: submit_new_request [OF v] nth_append running_def)
  have one: "i = j"
    if "i < length (requests p)" "j < length (requests p)"
      "running (requests p ! i)" "running (requests p ! j)" for i j
  proof -
    from that inv have "abortControllerRef p = Some i" "abortControllerRef p = Some j"
      by (auto simp: running_def intro: page_inv_live)
    then show ?thesis by simp
  qed
  have quiet: "aborted (requests (run fmt evs' p) ! j)
      \<and> visible (step fmt (Response j r) (run fmt evs' p)) = visible (run fmt evs' p)
      \<and> visible (step fmt (TimerFires j) (run fmt evs' p)) = visible (run fmt evs' p)"
    if "j < length (requests p)" "aborted (requests p ! j)" for j evs' r
    using that flags_run [of j p fmt evs'] quiet_after [of j p fmt r evs'] by blast
  show ?thesis using old new one quiet by blast
qed

lemma first_submit:
  assumes "validateAccountId v = None"
  shows "run fmt [InputChange v, Submit] init_page =
     \<lparr>accountId = v, balanceData = None, fetchedAccountId = None, loading = True, error = None,
      abortControllerRef = Some 0,
      requests = [\<lparr>trimmedAccountId = trim v, aborted = False,
                   timeoutId = Pending REQUEST_TIMEOUT, fetchPromise = AwaitConnect,
                   settled = False\<rparr>]\<rparr>"
  using assms
  by (simp add: step.simps handleInputChange_def handleFetchBalance_def abort_current_def
      init_page_def)

lemma alice_near_valid: "validateAccountId ''alice.near'' = None"
  by code_simp

theorem supersession_witness:
  "validateAccountId (accountId (run (\<lambda>balance fracDigits. balance)
      [InputChange ''alice.near'', Submit] init_page)) = None
   \<and> running (requests (run (\<lambda>balance fracDigits. balance)
      [InputChange ''alice.near'', Submit] init_page) ! 0)
   \<and> aborted (requests (run (\<lambda>balance fracDigits. balance)
      [InputChange ''alice.near'', Submit, Submit] init_page) ! 0)
   \<and> running (requests (run (\<lambda>balance fracDigits. balance)
      [InputChange ''alice.near'', Submit, Submit] init_page) ! 1)
   \<and> visible (step (\<lambda>balance fracDigits. balance) (Response 0 ConnectOk)
        (run (\<lambda>balance fracDigits. balance) [Response 1 ConnectOk]
          (run (\<lambda>balance fracDigits. balance)
            [InputChange ''alice.near'', Submit, Submit] init_page)))
     = visible (run (\<lambda>balance fracDigits. balance) [Response 1 ConnectOk]
          (run (\<lambda>balance fracDigits. balance)
            [InputChange ''alice.near'', Submit, Submit] init_page))"
proof -
  let ?fmt = "\<lambda>balance fracDigits. balance :: string"
  let ?P = "run ?fmt [InputChange ''alice.near'', Submit] init_page"
  let ?Q = "run ?fmt [InputChange ''alice.near'', Submit, Submit] init_page"
  note P = first_submit [OF alice_near_valid, of ?fmt]
  have h1: "validateAccountId (accountId ?P) = None" by (simp only: P) (simp add: alice_near_valid)
  have h2: "length (requests ?P) = 1" by (simp only: P) simp
  have h3: "running (requests ?P ! 0)" by (simp only: P) (simp add: running_def)
  have Q: "?Q = step ?fmt Submit ?P" by simp
  from supersession [OF refl, of ?fmt "[InputChange ''alice.near'', Submit]"] h1 h2
  have a: "aborted (requests ?Q ! 0)" and n: "length (requests ?Q) = 2"
    and r: "running (requests ?Q ! 1)"
    unfolding Q by simp_all
  from n have z: "0 < length (requests ?Q)" by simp
  from supersession [OF refl, of ?fmt "[InputChange ''alice.near'', Submit, Submit]"] a z
  have b: "visible (step ?fmt (Response 0 ConnectOk) (run ?fmt [Response 1 ConnectOk] ?Q))
      = visible (run ?fmt [Response 1 ConnectOk] ?Q)"
    by blast
  from h1 h3 a r b show ?thesis by blast
qed

section \<open>The timeout\<close>

lemma classify_timed_out:
  "classifyError acct timed_out = ''Request timed out. The network may be slow. Please try again.''"
  by (simp add: classifyError_def timed_out_def)

lemma timer_fires_running:
  assumes "i < length (requests p)" and "timeoutId (requests p ! i) = Pending d"
    and "running (requests p ! i)"
  shows "step fmt (TimerFires i) p =
     p\<lparr>requests := (requests p)[i := settle ((requests p ! i)\<lparr>timeoutId := Fired\<rparr>)],
       error := Some ''Request timed out. The network may be slow. Please try again.'',
       loading := False\<rparr>"
  using assms
  by (simp add: step.simps Let_def after_race_def running_def classify_timed_out)

text \<open>
  Claim C5. The timer that a submission starts has a delay of 30000 ms. When the timer of
  a running request expires, the page shows exactly "Request timed out. The network may
  be slow. Please try again." and stops loading, with the balance and the fetched
  identifier as they were; and whatever happens afterwards, no later result or error of
  that fetch changes what the page shows.
\<close>

theorem timeout_message:
  assumes "i < length (requests p)" and "timeoutId (requests p ! i) = Pending d"
    and "running (requests p ! i)"
  shows "error (step fmt (TimerFires i) p) =
           Some ''Request timed out. The network may be slow. Please try again.''
       \<and> loading (step fmt (TimerFires i) p) = False
       \<and> balanceData (step fmt (TimerFires i) p) = balanceData p
       \<and> fetchedAccountId (step fmt (TimerFires i) p) = fetchedAccountId p
       \<and> (\<forall>evs r. visible (step fmt (Response i r) (run fmt evs (step fmt (TimerFires i) p)))
                   = visible (run fmt evs (step fmt (TimerFires i) p)))
       \<and> (validateAccountId (accountId p0) = None \<longrightarrow>
            timeoutId (requests (step fmt Submit p0) ! length (requests p0)) = Pending 30000)"
proof -
  let ?p' = "step fmt (TimerFires i) p"
  have eq: "?p' =
     p\<lparr>requests := (requests p)[i := settle ((requests p ! i)\<lparr>timeoutId := Fired\<rparr>)],
       error := Some ''Request timed out. The network may be slow. Please try again.'',
       loading := False\<rparr>"
    using assms by (rule timer_fires_running)
  have i': "i < length (requests ?p')" and st: "settled (requests ?p' ! i)"
    using assms(1) by (simp_all add: eq settle_def)
  have late: "visible (step fmt (Response i r) (run fmt evs ?p')) = visible (run fmt evs ?p')"
    for evs r
    using quiet_after [OF i', of fmt r evs] st by blast
  have timer: "timeoutId (requests (step fmt Submit p0) ! length (requests p0)) = Pending 30000"
    if "validateAccountId (accountId p0) = None"
    by (simp add: submit_new_request [OF that] nth_append REQUEST_TIMEOUT_def)
  show ?thesis using late timer by (simp add: eq)
qed

theorem timeout_message_witness:
  "running (requests (run (\<lambda>balance fracDigits. balance)
      [InputChange ''alice.near'', Submit] init_page) ! 0)
   \<and> error (step (\<lambda>balance fracDigits. balance) (TimerFires 0)
        (run (\<lambda>balance fracDigits. balance) [InputChange ''alice.near'', Submit] init_page))
     = Some ''Request timed out. The network may be slow. Please try again.''
   \<and> visible (step (\<lambda>balance fracDigits. balance) (Response 0 (StakedOk 5))
        (run (\<lambda>balance fracDigits. balance)
          [Response 0 ConnectOk, Response 0 AccountOk, Response 0 (LiquidOk 7)]
          (step (\<lambda>balance fracDigits. balance) (TimerFires 0)
            (run (\<lambda>balance fracDigits. balance)
              [InputChange ''alice.near'', Submit] init_page))))
     = visible (run (\<lambda>balance fracDigits. balance)
          [Response 0 ConnectOk, Response 0 AccountOk, Response 0 (LiquidOk 7)]
          (step (\<lambda>balance fracDigits. balance) (TimerFires 0)
            (run (\<lambda>balance fracDigits. balance)
              [InputChange ''alice.near'', Submit] init_page)))
   \<and> validateAccountId (accountId (init_page\<lparr>accountId := ''alice.near''\<rparr>)) = None
   \<and> timeoutId (requests (step (\<lambda>balance fracDigits. balance) Submit
        (init_page\<lparr>accountId := ''alice.near''\<rparr>))
        ! length (requests (init_page\<lparr>accountId := ''alice.near''\<rparr>))) = Pending 30000"
proof -
  let ?fmt = "\<lambda>balance fracDigits. balance :: string"
  let ?P = "run ?fmt [InputChange ''alice.near'', Submit] init_page"
  note P = first_submit [OF alice_near_valid, of ?fmt]
  have h1: "0 < length (requests ?P)" by (simp only: P) simp
  have h2: "timeoutId (requests ?P ! 0) = Pending REQUEST_TIMEOUT" by (simp only: P) simp
  have h3: "running (requests ?P ! 0)" by (simp only: P) (simp add: running_def)
  have h4: "validateAccountId (accountId (init_page\<lparr>accountId := ''alice.near''\<rparr>)) = None"
    by (simp add: alice_near_valid)
  from timeout_message [OF h1 h2 h3, of ?fmt "init_page\<lparr>accountId := ''alice.near''\<rparr>"] h3 h4
  show ?thesis by blast
qed

section \<open>Teardown\<close>

lemma unmount_then_account:
  "requests (run fmt [Response 0 ConnectOk, Response 0 AccountOk]
     (step fmt Unmount
       \<lparr>accountId = v, balanceData = None, fetchedAccountId = None, loading = True,
         error = None, abortControllerRef = Some 0,
         requests = [\<lparr>trimmedAccountId = t, aborted = False,
           timeoutId = Pending REQUEST_TIMEOUT, fetchPromise = AwaitConnect,
           settled = False\<rparr>]\<rparr>))
   = [\<lparr>trimmedAccountId = t, aborted = True, timeoutId = Cleared,
       fetchPromise = Rejected cancelled, settled = True\<rparr>]"
  by (simp add: step.simps abort_current_def fetch_step_def outcome_def
      after_race_def settle_def clearTimeout_def Let_def)

text \<open>
  Claim C7, as it is written: tearing down the consumer while a request is running
  releases its pending timeout timer, so that no timer remains after teardown. The cleanup
  only aborts the controller: after it the timer of the running request is still
  scheduled.
\<close>

theorem teardown_keeps_timer:
  "running (requests (run (\<lambda>balance fracDigits. balance)
      [InputChange ''alice.near'', Submit] init_page) ! 0)
   \<and> aborted (requests (step (\<lambda>balance fracDigits. balance) Unmount
        (run (\<lambda>balance fracDigits. balance) [InputChange ''alice.near'', Submit] init_page)) ! 0)
   \<and> \<not> released (timeoutId (requests (step (\<lambda>balance fracDigits. balance) Unmount
        (run (\<lambda>balance fracDigits. balance) [InputChange ''alice.near'', Submit] init_page)) ! 0))"
  by (simp only: first_submit [OF alice_near_valid])
     (simp add: step_simple abort_current_def running_def released_def)

text \<open>
  Claim C7, amended. Tearing down the consumer while a request is running cancels that
  request and does nothing else (it cannot throw): the timer of the request stays
  scheduled. From then on neither the outcome of the fetch nor the expiry of the timer
  changes what the page shows. The timer is released later: on every page that follows,
  if the fetch of the request has ended its timer is no longer scheduled, and the expiry
  of the timer leaves it not scheduled either.
\<close>

theorem teardown_cancels:
  assumes "p = run fmt evs init_page"
  shows "(abortControllerRef p = None \<longrightarrow> step fmt Unmount p = p)
       \<and> (\<forall>i. abortControllerRef p = Some i \<longrightarrow>
            i < length (requests p)
            \<and> step fmt Unmount p =
                p\<lparr>requests := (requests p)[i := (requests p ! i)\<lparr>aborted := True\<rparr>]\<rparr>
            \<and> (\<forall>evs' r.
                  visible (step fmt (Response i r) (run fmt evs' (step fmt Unmount p)))
                    = visible (run fmt evs' (step fmt Unmount p))
                  \<and> visible (step fmt (TimerFires i) (run fmt evs' (step fmt Unmount p)))
                    = visible (run fmt evs' (step fmt Unmount p))
                  \<and> (settled (requests (run fmt evs' (step fmt Unmount p)) ! i) \<longrightarrow>
                       released (timeoutId (requests (run fmt evs' (step fmt Unmount p)) ! i)))
                  \<and> (ended (requests (run fmt evs' (step fmt Unmount p)) ! i) \<longrightarrow>
                       released (timeoutId (requests (run fmt evs' (step fmt Unmount p)) ! i)))
                  \<and> released (timeoutId (requests
                       (step fmt (TimerFires i) (run fmt evs' (step fmt Unmount p))) ! i))))"
proof -
  have inv: "page_inv p" unfolding assms by (rule page_inv_reachable)
  have einv: "ended_inv p" unfolding assms by (rule ended_inv_reachable)
  have none: "step fmt Unmount p = p" if "abortControllerRef p = None"
    using that by (simp add: step_simple abort_current_def)
  have some: "i < length (requests p)
      \<and> step fmt Unmount p = p\<lparr>requests := (requests p)[i := (requests p ! i)\<lparr>aborted := True\<rparr>]\<rparr>
      \<and> visible (step fmt (Response i r) (run fmt evs' (step fmt Unmount p)))
          = visible (run fmt evs' (step fmt Unmount p))
      \<and> visible (step fmt (TimerFires i) (run fmt evs' (step fmt Unmount p)))
          = visible (run fmt evs' (step fmt Unmount p))
      \<and> (settled (requests (run fmt evs' (step fmt Unmount p)) ! i) \<longrightarrow>
           released (timeoutId (requests (run fmt evs' (step fmt Unmount p)) ! i)))
      \<and> (ended (requests (run fmt evs' (step fmt Unmount p)) ! i) \<longrightarrow>
           released (timeoutId (requests (run fmt evs' (step fmt Unmount p)) ! i)))
      \<and> released (timeoutId (requests
           (step fmt (TimerFires i) (run fmt evs' (step fmt Unmount p))) ! i))"
    if ref: "abortControllerRef p = Some i" for i evs' r
  proof -
    let ?u = "step fmt Unmount p"
    let ?q = "run fmt evs' ?u"
    from inv ref have i: "i < length (requests p)" by (rule page_inv_ref)
    have eq: "?u = p\<lparr>requests := (requests p)[i := (requests p ! i)\<lparr>aborted := True\<rparr>]\<rparr>"
      using ref i by (simp add: step_simple abort_current_def)
    have i': "i < length (requests ?u)" and ab: "aborted (requests ?u ! i)"
      using i by (simp_all add: eq)
    have quiet: "visible (step fmt (Response i r) ?q) = visible ?q
        \<and> visible (step fmt (TimerFires i) ?q) = visible ?q"
      using quiet_after [OF i', of fmt r evs'] ab by blast
    have pq: "page_inv ?q"
      using inv by (intro page_inv_run page_inv_step)
    have eq': "ended_inv ?q"
      using einv by (intro ended_inv_run ended_inv_step)
    have iq: "i < length (requests ?q)"
      using flags_run [OF i', of fmt evs'] by blast
    have rel: "settled (requests ?q ! i) \<longrightarrow> released (timeoutId (requests ?q ! i))"
      using pq iq page_inv_timer_released by blast
    have "ended (requests ?q ! i) \<longrightarrow> settled (requests ?q ! i)"
      using eq' iq ended_invD by blast
    with rel have fin: "ended (requests ?q ! i) \<longrightarrow> released (timeoutId (requests ?q ! i))"
      by blast
    have "released (timeoutId (requests (step fmt (TimerFires i) ?q) ! i))"
      using iq by (rule released_after_expiry)
    with i eq quiet rel fin show ?thesis by blast
  qed
  show ?thesis using none some by blast
qed

theorem teardown_cancels_witness:
  "abortControllerRef (run (\<lambda>balance fracDigits. balance)
      [InputChange ''alice.near'', Submit] init_page) = Some 0
   \<and> timeoutId (requests (step (\<lambda>balance fracDigits. balance) Unmount
        (run (\<lambda>balance fracDigits. balance) [InputChange ''alice.near'', Submit] init_page)) ! 0)
     = Pending REQUEST_TIMEOUT
   \<and> fetchPromise (requests (run (\<lambda>balance fracDigits. balance)
        [Response 0 ConnectOk, Response 0 AccountOk]
        (step (\<lambda>balance fracDigits. balance) Unmount
          (run (\<lambda>balance fracDigits. balance) [InputChange ''alice.near'', Submit] init_page))) ! 0)
     = Rejected cancelled
   \<and> ended (requests (run (\<lambda>balance fracDigits. balance)
        [Response 0 ConnectOk, Response 0 AccountOk]
        (step (\<lambda>balance fracDigits. balance) Unmount
          (run (\<lambda>balance fracDigits. balance) [InputChange ''alice.near'', Submit] init_page))) ! 0)
   \<and> released (timeoutId (requests (run (\<lambda>balance fracDigits. balance)
        [Response 0 ConnectOk, Response 0 AccountOk]
        (step (\<lambda>balance fracDigits. balance) Unmount
          (run (\<lambda>balance fracDigits. balance) [InputChange ''alice.near'', Submit] init_page))) ! 0))
   \<and> released (timeoutId (requests (step (\<lambda>balance fracDigits. balance) (TimerFires 0)
        (run (\<lambda>balance fracDigits. balance) [Response 0 ConnectOk]
          (step (\<lambda>balance fracDigits. balance) Unmount
            (run (\<lambda>balance fracDigits. balance)
              [InputChange ''alice.near'', Submit] init_page)))) ! 0))
   \<and> visible (step (\<lambda>balance fracDigits. balance) (TimerFires 0)
        (run (\<lambda>balance fracDigits. balance) [Response 0 ConnectOk]
          (step (\<lambda>balance fracDigits. balance) Unmount
            (run (\<lambda>balance fracDigits. balance) [InputChange ''alice.near'', Submit] init_page))))
     = visible (run (\<lambda>balance fracDigits. balance) [Response 0 ConnectOk]
          (step (\<lambda>balance fracDigits. balance) Unmount
            (run (\<lambda>balance fracDigits. balance) [InputChange ''alice.near'', Submit] init_page)))"
proof -
  let ?fmt = "\<lambda>balance fracDigits. balance :: string"
  let ?P = "run ?fmt [InputChange ''alice.near'', Submit] init_page"
  let ?Q = "run ?fmt [Response 0 ConnectOk, Response 0 AccountOk] (step ?fmt Unmount ?P)"
  have h: "abortControllerRef ?P = Some 0"
    by (simp only: first_submit [OF alice_near_valid]) simp
  have t: "timeoutId (requests (step ?fmt Unmount ?P) ! 0) = Pending REQUEST_TIMEOUT"
    by (simp only: first_submit [OF alice_near_valid])
       (simp add: step.simps abort_current_def)
  have q: "requests ?Q
     = [\<lparr>trimmedAccountId = trim ''alice.near'', aborted = True, timeoutId = Cleared,
         fetchPromise = Rejected cancelled, settled = True\<rparr>]"
    by (simp only: first_submit [OF alice_near_valid]) (rule unmount_then_account)
  have f: "fetchPromise (requests ?Q ! 0) = Rejected cancelled"
    by (simp only: q) simp
  have e: "ended (requests ?Q ! 0)"
    by (simp only: ended_def f) (simp add: outcome_def)
  from teardown_cancels [OF refl, of ?fmt "[InputChange ''alice.near'', Submit]"] h t f e
  show ?thesis by blast
qed

end
